theory Spec2Isabelle
  imports Complex_Main "HOL-Library.Multiset" "HOL-Library.Monad_Syntax"
begin

section \<open>Geometry primitives\<close>

text \<open>
  \<^verbatim>\<open>Vec3d\<close> is a column of three doubles.  In the clustering functions the
  coordinates are real numbers and \<open>distance\<close> is exact: what is stated of clustering
  depends on a distance only where doubles give the same (between points with small
  integer coordinates, and from a point to itself), or on none.  \<^verbatim>\<open>normals\<close> compares
  computed distances with a tolerance; its arithmetic is a parameter, introduced
  with it.
\<close>

type_synonym Vec3d = "real \<times> real \<times> real"

fun vsub :: "Vec3d \<Rightarrow> Vec3d \<Rightarrow> Vec3d" where
  "vsub (a, b, c) (x, y, z) = (a - x, b - y, c - z)"

fun dot :: "Vec3d \<Rightarrow> Vec3d \<Rightarrow> real" where
  "dot (a, b, c) (x, y, z) = a * x + b * y + c * z"

text \<open>\<^verbatim>\<open>distance(pp1, pp2)\<close>: \<^verbatim>\<open>p = pp2 - pp1; sqrt(p.transpose() * p)\<close>.\<close>

definition distance :: "Vec3d \<Rightarrow> Vec3d \<Rightarrow> real" where
  "distance pp1 pp2 = (let p = vsub pp2 pp1 in sqrt (dot p p))"

section \<open>The spatial index\<close>

text \<open>
  A \<^verbatim>\<open>SpatElement\<close> is a point with its payload index.  The R-tree
  \<^verbatim>\<open>Index3D\<close> is kept as the list of its stored values in iteration order:
  \<^verbatim>\<open>*sindex.begin()\<close> is the head, \<^verbatim>\<open>remove\<close> deletes one stored copy of the value.
\<close>

type_synonym SpatElement = "Vec3d \<times> nat"
type_synonym Index3D = "SpatElement list"
type_synonym Elems = "SpatElement list"
type_synonym ClusteredPoints = "nat list list"

definition insert_el :: "SpatElement \<Rightarrow> Index3D \<Rightarrow> Index3D" where
  "insert_el el sindex = sindex @ [el]"

definition remove_el :: "Index3D \<Rightarrow> SpatElement \<Rightarrow> Index3D" where
  "remove_el sindex el = remove1 el sindex"

text \<open>
  Modelled from the spec: the k-nearest query of the external index
  (\<^verbatim>\<open>bgi::nearest(el, k)\<close>), which section 6 describes as returning at most \<open>k\<close>
  stored elements in ascending order of distance to the query point.
\<close>

definition nearest :: "Index3D \<Rightarrow> Vec3d \<Rightarrow> nat \<Rightarrow> Elems" where
  "nearest sindex el k = take k (sort_key (\<lambda>e. distance el (fst e)) sindex)"

text \<open>
  Modelled from the spec: the predicate query of the external index
  (\<^verbatim>\<open>bgi::satisfies(fn)\<close>), returning the stored elements that satisfy \<open>fn\<close>.
\<close>

definition satisfies :: "Index3D \<Rightarrow> (SpatElement \<Rightarrow> bool) \<Rightarrow> Elems" where
  "satisfies sindex fn = filter fn sindex"

section \<open>Failures\<close>

text \<open>
  What can stop a call other than not returning: the cancellation callback of
  \<^verbatim>\<open>normals\<close> throwing, a row index outside a matrix, and an allocation that the
  allocator refuses (\<^verbatim>\<open>std::bad_alloc\<close>).  A call that may fail has a value
  \<open>Inl e\<close> or \<open>Inr r\<close>; a call that may also run for ever has an optional such value.
\<close>

datatype error = Canceled | OutOfRange | BadAlloc

text \<open>
  \<^verbatim>\<open>tmp.reserve(n)\<close> on an empty vector asks the allocator for room for \<open>n\<close>
  elements at once.  How much the allocator grants is a matter of the machine: \<open>mem\<close>
  is the largest number of elements it grants.  The \<open>n\<close> of the code is an
  \<^verbatim>\<open>unsigned\<close>, below the vector's \<^verbatim>\<open>max_size()\<close>, so a refused reservation is a
  \<^verbatim>\<open>std::bad_alloc\<close>.  The vectors that grow with the input are taken to fit.
\<close>

definition reserve :: "nat \<Rightarrow> nat \<Rightarrow> error + unit" where
  "reserve mem n = (if n \<le> mem then Inr () else Inl BadAlloc)"

section \<open>Clustering\<close>

text \<open>
  \<^verbatim>\<open>std::sort(first, last, cmp)\<close> with \<^verbatim>\<open>cmp(e1, e2) = e1.second < e2.second\<close>.
  Elements with equal index keep their order here; \<^verbatim>\<open>std::sort\<close> leaves that order
  open, and with distinct indices there is nothing to choose.
\<close>

definition sort_cmp :: "Elems \<Rightarrow> Elems" where
  "sort_cmp xs = sort_key snd xs"

text \<open>\<^verbatim>\<open>std::set_difference\<close> on two ranges sorted by \<^verbatim>\<open>cmp\<close>.\<close>

fun set_difference :: "Elems \<Rightarrow> Elems \<Rightarrow> Elems" where
  "set_difference [] ys = []"
| "set_difference (x # xs) [] = x # xs"
| "set_difference (x # xs) (y # ys) =
     (if snd x < snd y then x # set_difference xs (y # ys)
      else if snd y < snd x then set_difference (x # xs) ys
      else set_difference xs ys)"

text \<open>
  The recursive lambda \<^verbatim>\<open>group(pts, cluster)\<close>.  The cluster is passed by reference
  in the source and is returned here.  The query function may throw, which ends the
  call with that failure; a call that recurses for ever has no value.
  \<^verbatim>\<open>max_points\<close> and the sizes are natural numbers: the difference
  \<^verbatim>\<open>max_points - cluster.size()\<close> is only taken when the cluster is within the cap,
  which the grouping step maintains (claim C3 below), and it is then smaller than
  \<^verbatim>\<open>newpts.size()\<close>.
\<close>

partial_function (option) group ::
  "(Index3D \<Rightarrow> SpatElement \<Rightarrow> error + Elems) \<Rightarrow> nat \<Rightarrow> Index3D \<Rightarrow> Elems \<Rightarrow> Elems
     \<Rightarrow> (error + Elems) option"
where
  "group qfn max_points sindex pts cluster =
     (case pts of
        [] \<Rightarrow> Some (Inr cluster)
      | p # rest \<Rightarrow>
          (case qfn sindex p of
             Inl e \<Rightarrow> Some (Inl e)
           | Inr found \<Rightarrow>
               (let tmp = sort_cmp found;
                    newpts = set_difference tmp cluster;
                    c = (if max_points \<noteq> 0 \<and> length newpts + length cluster > max_points
                         then max_points - length cluster else length newpts);
                    cluster' = sort_cmp (cluster @ take c newpts)
                in (if newpts \<noteq> [] \<and> (max_points = 0 \<or> length cluster' < max_points)
                    then group qfn max_points sindex newpts cluster'
                    else Some (Inr cluster'))
                   \<bind> (\<lambda>r. case r of
                                Inl e \<Rightarrow> Some (Inl e)
                              | Inr cluster'' \<Rightarrow> group qfn max_points sindex rest cluster''))))"

text \<open>
  The outer loop of \<^verbatim>\<open>cluster(sindex, max_points, qfn)\<close>: seed a cluster from the
  first stored element, remove the cluster's elements from the index, repeat until
  the index is empty.
\<close>

partial_function (option) cluster_loop ::
  "(Index3D \<Rightarrow> SpatElement \<Rightarrow> error + Elems) \<Rightarrow> nat \<Rightarrow> Index3D \<Rightarrow> Elems list
     \<Rightarrow> (error + Elems list) option"
where
  "cluster_loop qfn max_points sindex clusters =
     (if sindex = [] then Some (Inr clusters)
      else group qfn max_points sindex [hd sindex] []
           \<bind> (\<lambda>r. case r of
                        Inl e \<Rightarrow> Some (Inl e)
                      | Inr cluster \<Rightarrow>
                          cluster_loop qfn max_points
                            (foldl remove_el sindex cluster) (clusters @ [cluster])))"

definition cluster ::
  "Index3D \<Rightarrow> nat \<Rightarrow> (Index3D \<Rightarrow> SpatElement \<Rightarrow> error + Elems)
     \<Rightarrow> (error + ClusteredPoints) option" where
  "cluster sindex max_points qfn =
     map_option (map_sum id (map (map snd))) (cluster_loop qfn max_points sindex [])"

text \<open>
  The filtering loop of \<^verbatim>\<open>distance_queryfn\<close>:
  \<^verbatim>\<open>for(it = tmp.begin(); it < tmp.end(); ++it) if(distance(p.first, it->first) > dist) it = tmp.erase(it);\<close>
  After an erase the iterator already stands on the element that followed the erased
  one, and the loop's increment then steps over it.  When the erased element was the
  last one the loop ends.
\<close>

fun erase_loop :: "Vec3d \<Rightarrow> real \<Rightarrow> Elems \<Rightarrow> Elems" where
  "erase_loop p dst [] = []"
| "erase_loop p dst (e # es) =
     (if distance p (fst e) > dst
      then (case es of [] \<Rightarrow> [] | e' # es' \<Rightarrow> e' # erase_loop p dst es')
      else e # erase_loop p dst es)"

text \<open>
  \<^verbatim>\<open>distance_queryfn\<close>: reserve room for \<^verbatim>\<open>max_points\<close> elements, query the
  \<^verbatim>\<open>max_points\<close> nearest, filter them.
\<close>

definition distance_queryfn ::
  "nat \<Rightarrow> Index3D \<Rightarrow> SpatElement \<Rightarrow> real \<Rightarrow> nat \<Rightarrow> error + Elems" where
  "distance_queryfn mem sindex p dst max_points =
     (case reserve mem max_points of
        Inl e \<Rightarrow> Inl e
      | Inr _ \<Rightarrow> Inr (erase_loop (fst p) dst (nearest sindex (fst p) max_points)))"

text \<open>
  The query lambda of the predicate overload: reserve room for \<^verbatim>\<open>max_points\<close>
  elements, query the elements that satisfy the predicate against \<open>p\<close>.
\<close>

definition predicate_queryfn ::
  "nat \<Rightarrow> Index3D \<Rightarrow> SpatElement \<Rightarrow> (SpatElement \<Rightarrow> SpatElement \<Rightarrow> bool) \<Rightarrow> nat
     \<Rightarrow> error + Elems" where
  "predicate_queryfn mem sidx p predicate max_points =
     (case reserve mem max_points of
        Inl e \<Rightarrow> Inl e
      | Inr _ \<Rightarrow> Inr (satisfies sidx (\<lambda>e. predicate p e)))"

text \<open>
  The three public overloads, which C++ tells apart by their argument types: by
  distance (\<open>cluster_dist\<close>), by predicate (\<open>cluster_pred\<close>) and by distance over the
  rows of a point matrix (\<open>cluster_pts\<close>).  Each builds the index, then runs the core.
  The first argument is the allocator's limit \<open>mem\<close>.
\<close>

definition build_index :: "nat list \<Rightarrow> (nat \<Rightarrow> Vec3d) \<Rightarrow> Index3D" where
  "build_index indices pointfn = foldl (\<lambda>s idx. insert_el (pointfn idx, idx) s) [] indices"

definition cluster_dist ::
  "nat \<Rightarrow> nat list \<Rightarrow> (nat \<Rightarrow> Vec3d) \<Rightarrow> real \<Rightarrow> nat \<Rightarrow> (error + ClusteredPoints) option" where
  "cluster_dist mem indices pointfn dst max_points =
     cluster (build_index indices pointfn) max_points
       (\<lambda>sidx p. distance_queryfn mem sidx p dst max_points)"

definition cluster_pred ::
  "nat \<Rightarrow> nat list \<Rightarrow> (nat \<Rightarrow> Vec3d) \<Rightarrow> (SpatElement \<Rightarrow> SpatElement \<Rightarrow> bool) \<Rightarrow> nat
     \<Rightarrow> (error + ClusteredPoints) option" where
  "cluster_pred mem indices pointfn predicate max_points =
     cluster (build_index indices pointfn) max_points
       (\<lambda>sidx p. predicate_queryfn mem sidx p predicate max_points)"

definition cluster_pts ::
  "nat \<Rightarrow> Vec3d list \<Rightarrow> real \<Rightarrow> nat \<Rightarrow> (error + ClusteredPoints) option" where
  "cluster_pts mem pts dst max_points =
     cluster (build_index [0..<length pts] (\<lambda>i. pts ! i)) max_points
       (\<lambda>sidx p. distance_queryfn mem sidx p dst max_points)"

section \<open>Double arithmetic\<close>

text \<open>
  \<^verbatim>\<open>normals\<close> decides by comparing computed doubles with a tolerance and returns
  computed doubles.  What it computes depends on the rounding of every operation,
  on the linear-algebra library, and on the order in which \<^verbatim>\<open>std::sort\<close> leaves
  elements that its comparison does not tell apart; none of that is in the source
  file.  The arithmetic is therefore a parameter of the model: \<open>'d\<close> is the type of
  doubles (with whatever infinities and NaNs it holds), and an \<open>'d arith\<close> gives an
  operation to every library call that \<^verbatim>\<open>normals\<close> makes.  What is proved of
  \<^verbatim>\<open>normals\<close> for every \<open>'d arith\<close> holds of the arithmetic of the machine.
\<close>

type_synonym 'd vec3 = "'d \<times> 'd \<times> 'd"

text \<open>A \<^verbatim>\<open>ParametrizedLine\<close> holds an origin and a direction.\<close>

type_synonym 'd Line3D = "'d vec3 \<times> 'd vec3"

text \<open>
  The operations, in the order of the fields: the double of a decimal literal or of
  an integer; \<^verbatim>\<open>a < b\<close>; \<^verbatim>\<open>std::abs\<close>; \<^verbatim>\<open>std::sqrt\<close>; \<^verbatim>\<open>a - b\<close>; on vectors \<^verbatim>\<open>u - v\<close>,
  \<^verbatim>\<open>u + v\<close>, \<^verbatim>\<open>u / s\<close>, \<^verbatim>\<open>u.transpose() * v\<close>, \<^verbatim>\<open>u.cross(v)\<close>, \<^verbatim>\<open>u.normalized()\<close> and
  \<^verbatim>\<open>u.sum()\<close>; \<^verbatim>\<open>Line3D::Through(e1, e2)\<close> and \<^verbatim>\<open>line.distance(p)\<close>; and
  \<^verbatim>\<open>std::sort(first, last, comp)\<close> as the function from the comparison and the range
  to the range it leaves.
\<close>

record 'd arith =
  d_lit :: "real \<Rightarrow> 'd"
  d_less :: "'d \<Rightarrow> 'd \<Rightarrow> bool"
  d_abs :: "'d \<Rightarrow> 'd"
  d_sqrt :: "'d \<Rightarrow> 'd"
  d_sub :: "'d \<Rightarrow> 'd \<Rightarrow> 'd"
  d_minus :: "'d vec3 \<Rightarrow> 'd vec3 \<Rightarrow> 'd vec3"
  d_plus :: "'d vec3 \<Rightarrow> 'd vec3 \<Rightarrow> 'd vec3"
  d_div :: "'d vec3 \<Rightarrow> 'd \<Rightarrow> 'd vec3"
  d_dot :: "'d vec3 \<Rightarrow> 'd vec3 \<Rightarrow> 'd"
  d_cross :: "'d vec3 \<Rightarrow> 'd vec3 \<Rightarrow> 'd vec3"
  d_normalized :: "'d vec3 \<Rightarrow> 'd vec3"
  d_sum :: "'d vec3 \<Rightarrow> 'd"
  d_Through :: "'d vec3 \<Rightarrow> 'd vec3 \<Rightarrow> 'd Line3D"
  d_distance :: "'d Line3D \<Rightarrow> 'd vec3 \<Rightarrow> 'd"
  d_sort :: "('d vec3 \<Rightarrow> 'd vec3 \<Rightarrow> bool) \<Rightarrow> 'd vec3 list \<Rightarrow> 'd vec3 list"

section \<open>Surface normals\<close>

type_synonym Vec3i = "int \<times> int \<times> int"

text \<open>\<^verbatim>\<open>Vec3d::Zero()\<close>.\<close>

definition Zero :: "'d arith \<Rightarrow> 'd vec3" where
  "Zero A = (d_lit A 0, d_lit A 0, d_lit A 0)"

text \<open>
  The template \<^verbatim>\<open>distance(pp1, pp2)\<close> again, as \<^verbatim>\<open>normals\<close> calls it on two \<^verbatim>\<open>Vec3d\<close>,
  in the arithmetic \<open>A\<close>: \<^verbatim>\<open>p = pp2 - pp1; sqrt(p.transpose() * p)\<close>.
\<close>

definition distance_d :: "'d arith \<Rightarrow> 'd vec3 \<Rightarrow> 'd vec3 \<Rightarrow> 'd" where
  "distance_d A pp1 pp2 = (let p = d_minus A pp2 pp1 in d_sqrt A (d_dot A p p))"

definition point_on_edge :: "'d arith \<Rightarrow> 'd vec3 \<Rightarrow> 'd vec3 \<Rightarrow> 'd vec3 \<Rightarrow> 'd \<Rightarrow> bool" where
  "point_on_edge A p e1 e2 eps =
     (let line = d_Through A e1 e2; d = d_distance A line p in d_less A (d_abs A d) eps)"

text \<open>
  The mesh: vertex rows, face rows, and the acceleration tree, which is absent in a
  default-constructed mesh.  The tree's closest-point query is external; it is kept
  as the function from a query point to squared distance, face index and closest
  point.
\<close>

record 'd EigenMesh3D =
  m_V :: "'d vec3 list"
  m_F :: "Vec3i list"
  m_aabb :: "('d vec3 \<Rightarrow> 'd \<times> int \<times> 'd vec3) option"

text \<open>
  \<^verbatim>\<open>EigenMesh3D::squared_distance(p, i, c)\<close>: without a tree it sets \<^verbatim>\<open>i = -1\<close>, leaves
  \<^verbatim>\<open>c\<close> unwritten (\<open>None\<close>) and returns the initial \<^verbatim>\<open>sqdst = 0\<close>.
\<close>

definition squared_distance ::
  "'d arith \<Rightarrow> 'd EigenMesh3D \<Rightarrow> 'd vec3 \<Rightarrow> 'd \<times> int \<times> 'd vec3 option" where
  "squared_distance A mesh p =
     (case m_aabb mesh of
        Some query \<Rightarrow> (case query p of (sqdst, i, c) \<Rightarrow> (sqdst, i, Some c))
      | None \<Rightarrow> (d_lit A 0, - 1, None))"

text \<open>
  What can stop \<^verbatim>\<open>normals\<close>: the cancellation callback \<^verbatim>\<open>thr\<close> throwing, and a row
  index outside a matrix.  \<^verbatim>\<open>thr\<close> is modelled by whether it throws when called.
\<close>

fun and_then :: "error + 'a \<Rightarrow> ('a \<Rightarrow> error + 'b) \<Rightarrow> error + 'b" where
  "and_then (Inl e) f = Inl e"
| "and_then (Inr x) f = f x"

definition row :: "'a list \<Rightarrow> int \<Rightarrow> error + 'a" where
  "row m i = (if 0 \<le> i \<and> i < int (length m) then Inr (m ! nat i) else Inl OutOfRange)"

text \<open>The chain of tests that marks a vertex (\<open>ic\<close>) or an edge (\<open>ia\<close>, \<open>ib\<close>).\<close>

fun mark ::
  "'d arith \<Rightarrow> 'd vec3 \<Rightarrow> 'd vec3 \<Rightarrow> 'd vec3 \<Rightarrow> 'd vec3 \<Rightarrow> Vec3i \<Rightarrow> 'd \<Rightarrow> int \<times> int \<times> int"
where
  "mark A p p1 p2 p3 (t0, t1, t2) eps =
     (if d_less A (d_abs A (distance_d A p p1)) eps then (- 1, - 1, t0)
      else if d_less A (d_abs A (distance_d A p p2)) eps then (- 1, - 1, t1)
      else if d_less A (d_abs A (distance_d A p p3)) eps then (- 1, - 1, t2)
      else if point_on_edge A p p1 p2 eps then (t0, t1, - 1)
      else if point_on_edge A p p2 p3 eps then (t1, t2, - 1)
      else if point_on_edge A p p1 p3 eps then (t0, t2, - 1)
      else (- 1, - 1, - 1))"

fun has_vertex :: "Vec3i \<Rightarrow> int \<Rightarrow> bool" where
  "has_vertex (x, y, z) i \<longleftrightarrow> x = i \<or> y = i \<or> z = i"

text \<open>The two scans over all faces, with the cancellation check in every round.\<close>

fun scan_vertex :: "bool \<Rightarrow> int \<Rightarrow> Vec3i list \<Rightarrow> Vec3i list \<Rightarrow> error + Vec3i list" where
  "scan_vertex thr ic [] neigh = Inr neigh"
| "scan_vertex thr ic (ni # rest) neigh =
     (if thr then Inl Canceled
      else scan_vertex thr ic rest (if has_vertex ni ic then neigh @ [ni] else neigh))"

fun scan_edge :: "bool \<Rightarrow> int \<Rightarrow> int \<Rightarrow> Vec3i list \<Rightarrow> Vec3i list \<Rightarrow> error + Vec3i list" where
  "scan_edge thr ia ib [] neigh = Inr neigh"
| "scan_edge thr ia ib (ni # rest) neigh =
     (if thr then Inl Canceled
      else scan_edge thr ia ib rest
             (if has_vertex ni ia \<and> has_vertex ni ib then neigh @ [ni] else neigh))"

text \<open>The unit normal of one neighbouring triangle, and the loop over the neighbours.\<close>

fun tri_normal :: "'d arith \<Rightarrow> 'd vec3 list \<Rightarrow> Vec3i \<Rightarrow> error + 'd vec3" where
  "tri_normal A V (t0, t1, t2) =
     and_then (row V t0) (\<lambda>pt1.
     and_then (row V t1) (\<lambda>pt2.
     and_then (row V t2) (\<lambda>pt3.
       let U = d_minus A pt2 pt1; W = d_minus A pt3 pt1
       in Inr (d_normalized A (d_cross A U W)))))"

fun neigh_norms :: "'d arith \<Rightarrow> 'd vec3 list \<Rightarrow> Vec3i list \<Rightarrow> error + 'd vec3 list" where
  "neigh_norms A V [] = Inr []"
| "neigh_norms A V (tri # rest) =
     (case tri_normal A V tri of
        Inl e \<Rightarrow> Inl e
      | Inr n \<Rightarrow> (case neigh_norms A V rest of Inl e \<Rightarrow> Inl e | Inr ns \<Rightarrow> Inr (n # ns)))"

text \<open>
  \<^verbatim>\<open>std::unique(first, last, pred)\<close>: every element is compared with the last element
  kept, and is dropped when the predicate holds of the two.
\<close>

fun unique :: "('a \<Rightarrow> 'a \<Rightarrow> bool) \<Rightarrow> 'a list \<Rightarrow> 'a list" where
  "unique eq [] = []"
| "unique eq [x] = [x]"
| "unique eq (x # y # ys) = (if eq x y then unique eq (x # ys) else x # unique eq (y # ys))"

text \<open>The two lambdas of the \<^verbatim>\<open>std::unique\<close> call.\<close>

definition deq :: "'d arith \<Rightarrow> 'd \<Rightarrow> 'd \<Rightarrow> bool" where
  "deq A a b \<longleftrightarrow> d_less A (d_abs A (d_sub A a b)) (d_lit A (1 / 1000))"

fun normal_eq :: "'d arith \<Rightarrow> 'd vec3 \<Rightarrow> 'd vec3 \<Rightarrow> bool" where
  "normal_eq A (x1, y1, z1) (x2, y2, z2) \<longleftrightarrow> deq A x1 x2 \<and> deq A y1 y2 \<and> deq A z1 z2"

text \<open>
  The per-point lambda \<^verbatim>\<open>proc(ridx)\<close>; \<open>rng\<close> is the source's \<^verbatim>\<open>range\<close>.  Its value is
  the row it writes; \<open>None\<close> is a row left unwritten (no face found).  The closest
  point is unwritten only together with a negative face index, so the second \<open>None\<close>
  branch is never taken.  The comparison handed to \<^verbatim>\<open>std::sort\<close> is
  \<^verbatim>\<open>v1.sum() < v2.sum()\<close>; the sum that \<^verbatim>\<open>std::accumulate\<close> builds starts from zero and
  adds the kept normals from left to right, and it is divided by their number.
\<close>

definition proc ::
  "'d arith \<Rightarrow> (nat \<Rightarrow> 'd vec3) \<Rightarrow> 'd EigenMesh3D \<Rightarrow> 'd \<Rightarrow> nat list \<Rightarrow> bool \<Rightarrow> nat
     \<Rightarrow> error + 'd vec3 option"
where
  "proc A pfn mesh eps rng thr ridx =
     (if thr then Inl Canceled
      else
        let eidx = rng ! ridx in
        (case squared_distance A mesh (pfn eidx) of (sqdst, faceid, c) \<Rightarrow>
          if faceid < 0 then Inr None
          else
            (case c of
               None \<Rightarrow> Inr None
             | Some p \<Rightarrow>
                 and_then (row (m_F mesh) faceid) (\<lambda>trindex.
                 and_then (row (m_V mesh) (fst trindex)) (\<lambda>p1.
                 and_then (row (m_V mesh) (fst (snd trindex))) (\<lambda>p2.
                 and_then (row (m_V mesh) (snd (snd trindex))) (\<lambda>p3.
                   (case mark A p p1 p2 p3 trindex eps of (ia, ib, ic) \<Rightarrow>
                     and_then
                       (if ic \<ge> 0 then scan_vertex thr ic (m_F mesh) []
                        else if ia \<ge> 0 \<and> ib \<ge> 0 then scan_edge thr ia ib (m_F mesh) []
                        else Inr [])
                       (\<lambda>neigh.
                         if neigh = [] then
                           (let U = d_minus A p2 p1; W = d_minus A p3 p1
                            in Inr (Some (d_cross A U W)))
                         else
                           and_then (neigh_norms A (m_V mesh) neigh) (\<lambda>neighnorms.
                             let sorted_norms =
                                   d_sort A (\<lambda>v1 v2. d_less A (d_sum A v1) (d_sum A v2))
                                     neighnorms;
                                 kept = unique (normal_eq A) sorted_norms
                             in Inr (Some (d_div A (foldl (d_plus A) (Zero A) kept)
                                             (d_lit A (real (length kept)))))))))))))))"

text \<open>
  Running \<^verbatim>\<open>proc\<close> for every row, in a parallel loop or, for a single row, inline.
  The rows are independent; a failure in any of them aborts the batch.
\<close>

fun run_all :: "(error + 'a) list \<Rightarrow> error + 'a list" where
  "run_all [] = Inr []"
| "run_all (r # rs) =
     (case r of
        Inl e \<Rightarrow> Inl e
      | Inr x \<Rightarrow> (case run_all rs of Inl e \<Rightarrow> Inl e | Inr xs \<Rightarrow> Inr (x # xs)))"

definition normals ::
  "'d arith \<Rightarrow> (nat \<Rightarrow> 'd vec3) \<Rightarrow> 'd EigenMesh3D \<Rightarrow> 'd \<Rightarrow> nat list \<Rightarrow> bool
     \<Rightarrow> error + 'd vec3 option list"
where
  "normals A pfn mesh eps pt_indices thr =
     (if length pt_indices = 0 \<or> length (m_V mesh) = 0 \<or> length (m_F mesh) = 0 then Inr []
      else run_all (map (proc A pfn mesh eps pt_indices thr) [0..<length pt_indices]))"

section \<open>Exact arithmetic\<close>

text \<open>
  One arithmetic among those that the statements about \<^verbatim>\<open>normals\<close> cover: the doubles
  are the real numbers and no operation rounds.  It says what the operations
  compute up to rounding, and it is the arithmetic in which the geometry of the
  tests is stated.
\<close>

fun vadd :: "Vec3d \<Rightarrow> Vec3d \<Rightarrow> Vec3d" where
  "vadd (a, b, c) (x, y, z) = (a + x, b + y, c + z)"

fun scale :: "real \<Rightarrow> Vec3d \<Rightarrow> Vec3d" where
  "scale k (x, y, z) = (k * x, k * y, k * z)"

fun vdiv :: "Vec3d \<Rightarrow> real \<Rightarrow> Vec3d" where
  "vdiv (x, y, z) k = (x / k, y / k, z / k)"

fun cross :: "Vec3d \<Rightarrow> Vec3d \<Rightarrow> Vec3d" where
  "cross (a, b, c) (x, y, z) = (b * z - c * y, c * x - a * z, a * y - b * x)"

text \<open>\<^verbatim>\<open>v.sum()\<close>, the sum of the coefficients.\<close>

fun vsum :: "Vec3d \<Rightarrow> real" where
  "vsum (x, y, z) = x + y + z"

definition squaredNorm :: "Vec3d \<Rightarrow> real" where
  "squaredNorm v = dot v v"

text \<open>
  Modelled from the spec: the linear-algebra library's \<^verbatim>\<open>normalized()\<close>, which scales
  a vector to unit length and leaves the zero vector as it is.
\<close>

definition normalized :: "Vec3d \<Rightarrow> Vec3d" where
  "normalized n = (let z = squaredNorm n in if z > 0 then vdiv n (sqrt z) else n)"

text \<open>
  Modelled from the spec: the library's parametrized line, an origin and a unit
  direction; \<^verbatim>\<open>Through(p0, p1)\<close> is the line through two points and \<^verbatim>\<open>distance(p)\<close>
  the distance of \<open>p\<close> to its projection onto that (infinite) line.
\<close>

definition Through :: "Vec3d \<Rightarrow> Vec3d \<Rightarrow> real Line3D" where
  "Through p0 p1 = (p0, normalized (vsub p1 p0))"

definition line_distance :: "real Line3D \<Rightarrow> Vec3d \<Rightarrow> real" where
  "line_distance line p =
     (let diff = vsub p (fst line)
      in sqrt (squaredNorm (vsub diff (scale (dot (snd line) diff) (snd line)))))"

text \<open>
  A sort by a comparison.  \<^verbatim>\<open>std::sort\<close> promises a permutation that the comparison
  finds in order, and nothing about elements it does not tell apart; this one keeps
  them in their order.
\<close>

fun insert_by :: "('a \<Rightarrow> 'a \<Rightarrow> bool) \<Rightarrow> 'a \<Rightarrow> 'a list \<Rightarrow> 'a list" where
  "insert_by lt x [] = [x]"
| "insert_by lt x (y # ys) = (if lt y x then y # insert_by lt x ys else x # y # ys)"

definition sort_by :: "('a \<Rightarrow> 'a \<Rightarrow> bool) \<Rightarrow> 'a list \<Rightarrow> 'a list" where
  "sort_by lt xs = foldr (insert_by lt) xs []"

definition exact :: "real arith" where
  "exact =
     \<lparr>d_lit = (\<lambda>x. x), d_less = (<), d_abs = abs, d_sqrt = sqrt, d_sub = (-),
      d_minus = vsub, d_plus = vadd, d_div = vdiv, d_dot = dot, d_cross = cross,
      d_normalized = normalized, d_sum = vsum, d_Through = Through,
      d_distance = line_distance, d_sort = sort_by\<rparr>"

section \<open>Notions used in the statements\<close>

text \<open>
  The invariant of the grouping step for a fixed index: the cluster is sorted by
  payload index, its indices are among those of the index (counted with
  multiplicity), its elements are stored elements, and it is within the cap.
\<close>

definition ginv :: "Index3D \<Rightarrow> nat \<Rightarrow> Elems \<Rightarrow> bool" where
  "ginv s mp cl \<longleftrightarrow> sorted (map snd cl) \<and> mset (map snd cl) \<subseteq># mset (map snd s)
       \<and> set cl \<subseteq> set s \<and> (mp \<noteq> 0 \<longrightarrow> length cl \<le> mp)"

text \<open>The number \<^verbatim>\<open>c\<close> of new points that one round of \<^verbatim>\<open>group\<close> admits.\<close>

definition admit_count :: "nat \<Rightarrow> Elems \<Rightarrow> Elems \<Rightarrow> nat" where
  "admit_count mp cl newpts =
     (if mp \<noteq> 0 \<and> length newpts + length cl > mp then mp - length cl else length newpts)"

text \<open>
  What every query of the index satisfies, whatever its order and its choice among
  ties: the result consists of stored elements, none more often than stored.
\<close>

definition well_behaved :: "(Index3D \<Rightarrow> SpatElement \<Rightarrow> error + Elems) \<Rightarrow> bool" where
  "well_behaved qfn \<longleftrightarrow> (\<forall>s p found. qfn s p = Inr found \<longrightarrow> mset found \<subseteq># mset s)"

definition cluster_ok :: "nat \<Rightarrow> Elems \<Rightarrow> bool" where
  "cluster_ok mp cl \<longleftrightarrow> sorted (map snd cl) \<and> (mp \<noteq> 0 \<longrightarrow> length cl \<le> mp)"

text \<open>
  The result is a partition of the input indices: every input index lies in exactly
  one returned cluster, and every cluster holds input indices only, each once.
\<close>

definition partition_of :: "nat list \<Rightarrow> ClusteredPoints \<Rightarrow> bool" where
  "partition_of indices res \<longleftrightarrow>
     (\<forall>i\<in>set indices. length (filter (\<lambda>c. i \<in> set c) res) = 1)
     \<and> (\<forall>c\<in>set res. set c \<subseteq> set indices \<and> distinct c)"

text \<open>Sample inputs: points on the x axis, five units apart, and two query predicates.\<close>

definition line_pts :: "nat \<Rightarrow> Vec3d" where
  "line_pts i = (5 * real i, 0, 0)"

definition always :: "SpatElement \<Rightarrow> SpatElement \<Rightarrow> bool" where
  "always p e = True"

definition never :: "SpatElement \<Rightarrow> SpatElement \<Rightarrow> bool" where
  "never p e = False"

text \<open>Two pairs of points 0.01 apart, the pairs 10 apart; and the same with a far point.\<close>

definition two_pairs :: "Vec3d list" where
  "two_pairs = [(0, 0, 0), (1/100, 0, 0), (10, 0, 0), (1001/100, 0, 0)]"

definition two_pairs_far :: "Vec3d list" where
  "two_pairs_far = two_pairs @ [(1000, 0, 0)]"


text \<open>
  The classes of a closest point, as the later branches of \<^verbatim>\<open>proc\<close> read the marks:
  \<^verbatim>\<open>ic >= 0\<close> is a vertex, otherwise \<^verbatim>\<open>ia >= 0 && ib >= 0\<close> is an edge.
\<close>

datatype DegeneracyClass = FaceInterior | OnVertex int | OnEdge int int

fun decode :: "int \<times> int \<times> int \<Rightarrow> DegeneracyClass" where
  "decode (ia, ib, ic) =
     (if ic \<ge> 0 then OnVertex ic
      else if ia \<ge> 0 \<and> ib \<ge> 0 then OnEdge ia ib
      else FaceInterior)"

text \<open>
  The classification in the words of the specification, in the arithmetic \<open>A\<close>.
  A point is near a vertex when its computed Euclidean distance to the vertex is
  below the tolerance, and near an edge line when its computed distance to the line
  through the two endpoints is; the computed distance is taken in absolute value.
  The vertices are asked first, in their order, then the edges (v0,v1), (v1,v2),
  (v0,v2).
\<close>

definition near_vertex :: "'d arith \<Rightarrow> 'd vec3 \<Rightarrow> 'd vec3 \<Rightarrow> 'd \<Rightarrow> bool" where
  "near_vertex A c v eps \<longleftrightarrow>
     d_less A (d_abs A (d_sqrt A (d_dot A (d_minus A v c) (d_minus A v c)))) eps"

definition near_line :: "'d arith \<Rightarrow> 'd vec3 \<Rightarrow> 'd vec3 \<Rightarrow> 'd vec3 \<Rightarrow> 'd \<Rightarrow> bool" where
  "near_line A c a b eps \<longleftrightarrow> d_less A (d_abs A (d_distance A (d_Through A a b) c)) eps"

fun spec_classify ::
  "'d arith \<Rightarrow> 'd vec3 \<Rightarrow> 'd vec3 \<Rightarrow> 'd vec3 \<Rightarrow> 'd vec3 \<Rightarrow> Vec3i \<Rightarrow> 'd \<Rightarrow> DegeneracyClass"
where
  "spec_classify A c v0 v1 v2 (t0, t1, t2) eps =
     (if near_vertex A c v0 eps then OnVertex t0
      else if near_vertex A c v1 eps then OnVertex t1
      else if near_vertex A c v2 eps then OnVertex t2
      else if near_line A c v0 v1 eps then OnEdge t0 t1
      else if near_line A c v1 v2 eps then OnEdge t1 t2
      else if near_line A c v0 v2 eps then OnEdge t0 t2
      else FaceInterior)"

text \<open>
  The geometry of the two tests, in exact arithmetic.  The perpendicular distance of
  \<open>c\<close> to the infinite line through \<open>a\<close> and \<open>b\<close> is its distance to the foot of the
  perpendicular, wherever on the line that foot lies.
\<close>

definition foot :: "Vec3d \<Rightarrow> Vec3d \<Rightarrow> Vec3d \<Rightarrow> Vec3d" where
  "foot c a b = (let u = vsub b a in vadd a (scale (dot (vsub c a) u / dot u u) u))"

definition perp_distance :: "Vec3d \<Rightarrow> Vec3d \<Rightarrow> Vec3d \<Rightarrow> real" where
  "perp_distance c a b = distance c (foot c a b)"

text \<open>
  The aggregated normal in the words of the specification, in the arithmetic \<open>A\<close>:
  the unit normals of the selected faces are sorted by coordinate sum; from left to
  right, a normal is dropped when each of its coordinates differs from that of the
  last survivor by less than 1e-3 in absolute value; the survivors' sum is divided
  by their count.
\<close>

fun corners :: "Vec3i \<Rightarrow> int list" where
  "corners (a, b, c) = [a, b, c]"

fun unit_normal :: "'d arith \<Rightarrow> 'd vec3 list \<Rightarrow> Vec3i \<Rightarrow> 'd vec3" where
  "unit_normal A V (t0, t1, t2) =
     d_normalized A
       (d_cross A (d_minus A (V ! nat t1) (V ! nat t0)) (d_minus A (V ! nat t2) (V ! nat t0)))"

definition by_sum :: "'d arith \<Rightarrow> 'd vec3 \<Rightarrow> 'd vec3 \<Rightarrow> bool" where
  "by_sum A a b \<longleftrightarrow> d_less A (d_sum A a) (d_sum A b)"

fun coords :: "'d vec3 \<Rightarrow> 'd list" where
  "coords (x, y, z) = [x, y, z]"

definition duplicates :: "'d arith \<Rightarrow> 'd vec3 \<Rightarrow> 'd vec3 \<Rightarrow> bool" where
  "duplicates A m n \<longleftrightarrow>
     list_all (\<lambda>(a, b). d_less A (d_abs A (d_sub A a b)) (d_lit A (1 / 1000)))
       (zip (coords m) (coords n))"

definition collapse_adjacent :: "('a \<Rightarrow> 'a \<Rightarrow> bool) \<Rightarrow> 'a list \<Rightarrow> 'a list" where
  "collapse_adjacent eq xs =
     foldl (\<lambda>kept x. if kept \<noteq> [] \<and> eq (last kept) x then kept else kept @ [x]) [] xs"

definition mean :: "'d arith \<Rightarrow> 'd vec3 list \<Rightarrow> 'd vec3" where
  "mean A ns =
     d_div A (foldl (d_plus A) (d_lit A 0, d_lit A 0, d_lit A 0) ns)
       (d_lit A (real (length ns)))"

definition aggregated_normal ::
  "'d arith \<Rightarrow> 'd EigenMesh3D \<Rightarrow> (Vec3i \<Rightarrow> bool) \<Rightarrow> 'd vec3" where
  "aggregated_normal A mesh sel =
     mean A (collapse_adjacent (duplicates A)
               (d_sort A (by_sum A) (map (unit_normal A (m_V mesh)) (filter sel (m_F mesh)))))"

text \<open>The arithmetic mean of vectors of real numbers, coordinate by coordinate.\<close>

definition coordinate_mean :: "Vec3d list \<Rightarrow> Vec3d" where
  "coordinate_mean ns =
     (sum_list (map fst ns) / real (length ns),
      sum_list (map (\<lambda>n. fst (snd n)) ns) / real (length ns),
      sum_list (map (\<lambda>n. snd (snd n)) ns) / real (length ns))"

text \<open>The faces that \<^verbatim>\<open>proc\<close> collects for given marks when it is not cancelled.\<close>

fun neigh_of :: "'d EigenMesh3D \<Rightarrow> int \<times> int \<times> int \<Rightarrow> Vec3i list" where
  "neigh_of mesh (ia, ib, ic) =
     (if ic \<ge> 0 then filter (\<lambda>f. has_vertex f ic) (m_F mesh)
      else if ia \<ge> 0 \<and> ib \<ge> 0 then filter (\<lambda>f. has_vertex f ia \<and> has_vertex f ib) (m_F mesh)
      else [])"

text \<open>
  Sample meshes with small integer coordinates, each with a closest-point query that
  answers face 0 and the query point itself: a right triangle; the three faces at a
  corner of a cube; and three faces around a vertex, the first and the last in one
  plane and the second at a right angle to them.
\<close>

definition on_face_0 :: "Vec3d \<Rightarrow> real \<times> int \<times> Vec3d" where
  "on_face_0 p = (0, 0, p)"

definition triangle_mesh :: "real EigenMesh3D" where
  "triangle_mesh =
     \<lparr>m_V = [(0, 0, 0), (8, 0, 0), (0, 8, 0)], m_F = [(0, 1, 2)], m_aabb = Some on_face_0\<rparr>"

definition corner_mesh :: "real EigenMesh3D" where
  "corner_mesh =
     \<lparr>m_V = [(0, 0, 0), (4, 0, 0), (0, 4, 0), (0, 0, 4)],
      m_F = [(0, 1, 2), (0, 2, 3), (0, 3, 1)], m_aabb = Some on_face_0\<rparr>"

definition fan_mesh :: "real EigenMesh3D" where
  "fan_mesh =
     \<lparr>m_V = [(0, 0, 0), (4, 0, 0), (0, 4, 0), (- 4, 0, 0), (0, 0, 4)],
      m_F = [(0, 1, 2), (0, 1, 4), (0, 2, 3)], m_aabb = Some on_face_0\<rparr>"

definition empty_mesh :: "real EigenMesh3D" where
  "empty_mesh = \<lparr>m_V = [], m_F = [], m_aabb = None\<rparr>"

definition at_point :: "Vec3d \<Rightarrow> nat \<Rightarrow> Vec3d" where
  "at_point p i = p"

section \<open>Facts about clustering\<close>

lemma bind_sum_Some:
  "(m \<bind> (\<lambda>r. case r of Inl e \<Rightarrow> Some (Inl e) | Inr x \<Rightarrow> f x)) = Some y
     \<longleftrightarrow> (\<exists>e. m = Some (Inl e) \<and> y = Inl e) \<or> (\<exists>x. m = Some (Inr x) \<and> f x = Some y)"
  by (cases m) (auto split: sum.splits)

lemma group_Nil: "group qfn mp s [] cl = Some (Inr cl)"
  by (subst group.simps) simp

lemma group_Cons_Inl: "qfn s p = Inl e \<Longrightarrow> group qfn mp s (p # rest) cl = Some (Inl e)"
  by (subst group.simps) simp

lemma group_Cons_Inr:
  "qfn s p = Inr found \<Longrightarrow> group qfn mp s (p # rest) cl =
          (let newpts = set_difference (sort_cmp found) cl;
               cluster' = sort_cmp (cl @ take (admit_count mp cl newpts) newpts)
           in (if newpts \<noteq> [] \<and> (mp = 0 \<or> length cluster' < mp)
               then group qfn mp s newpts cluster'
               else Some (Inr cluster'))
              \<bind> (\<lambda>r. case r of Inl e \<Rightarrow> Some (Inl e)
                           | Inr cluster'' \<Rightarrow> group qfn mp s rest cluster''))"
  by (subst group.simps) (simp add: Let_def admit_count_def)

lemma set_difference_Nil2: "set_difference xs [] = xs"
  by (cases xs) simp_all

lemma set_difference_subset: "set (set_difference xs ys) \<subseteq> set xs"
  by (induction xs ys rule: set_difference.induct) auto

lemma set_difference_keys:
  "sorted (map snd xs) \<Longrightarrow> sorted (map snd ys) \<Longrightarrow>
   mset (map snd (set_difference xs ys)) = mset (map snd xs) - mset (map snd ys)"
proof (induction xs ys rule: set_difference.induct)
  case (1 ys)
  then show ?case by simp
next
  case (2 x xs)
  then show ?case by simp
next
  case (3 x xs y ys)
  show ?case
  proof (cases "snd x < snd y")
    case True
    then have "snd x \<notin># mset (map snd (y # ys))"
      using "3.prems"(2) by auto
    then have "add_mset (snd x) (mset (map snd xs)) - mset (map snd (y # ys))
        = add_mset (snd x) (mset (map snd xs) - mset (map snd (y # ys)))"
      by (rule diff_add_mset_swap)
    with 3 True show ?thesis by simp
  next
    case False
    show ?thesis
    proof (cases "snd y < snd x")
      case True
      then have "snd y \<notin># mset (map snd (x # xs))"
        using "3.prems"(1) by auto
      then have "mset (map snd (x # xs)) - add_mset (snd y) (mset (map snd ys))
         = mset (map snd (x # xs)) - mset (map snd ys)"
        by (rule minus_add_mset_if_not_in_lhs)
      with 3 True False show ?thesis by simp
    next
      case F2: False
      with False have "snd x = snd y" by simp
      with 3 False show ?thesis by simp
    qed
  qed
qed

lemma mset_take_subseteq: "mset (take n xs) \<subseteq># mset xs"
  by (metis append_take_drop_id mset_append mset_subset_eq_add_left)

lemma ginv_Nil: "ginv s mp []"
  by (simp add: ginv_def)

lemma ginv_length: "ginv s mp cl \<Longrightarrow> length cl \<le> length s"
proof -
  assume "ginv s mp cl"
  then have "mset (map snd cl) \<subseteq># mset (map snd s)" by (simp add: ginv_def)
  then have "size (mset (map snd cl)) \<le> size (mset (map snd s))" by (rule size_mset_mono)
  then show ?thesis by simp
qed

lemma ginv_step:
  assumes wb: "mset q \<subseteq># mset s" and inv: "ginv s mp cl"
  defines "newpts \<equiv> set_difference (sort_cmp q) cl"
  defines "cl' \<equiv> sort_cmp (cl @ take (admit_count mp cl newpts) newpts)"
  shows "ginv s mp cl'"
proof -
  let ?c = "admit_count mp cl newpts"
  have s1: "sorted (map snd cl')" by (simp add: cl'_def sort_cmp_def)
  have kq: "mset (map snd (sort_cmp q)) \<subseteq># mset (map snd s)"
    using image_mset_subseteq_mono[OF wb, of snd] by (simp add: sort_cmp_def)
  have kn: "mset (map snd newpts) = mset (map snd (sort_cmp q)) - mset (map snd cl)"
    unfolding newpts_def using inv
    by (intro set_difference_keys) (simp_all add: ginv_def sort_cmp_def)
  have "mset (take ?c newpts) \<subseteq># mset newpts" by (rule mset_take_subseteq)
  then have kt: "mset (map snd (take ?c newpts)) \<subseteq># mset (map snd newpts)"
    using image_mset_subseteq_mono[of _ _ snd] by fastforce
  have "mset (map snd cl') = mset (map snd cl) + mset (map snd (take ?c newpts))"
    by (simp add: cl'_def sort_cmp_def)
  also have "\<dots> \<subseteq># mset (map snd cl) + (mset (map snd (sort_cmp q)) - mset (map snd cl))"
    using kt kn by simp
  also have "\<dots> = mset (map snd cl) \<union># mset (map snd (sort_cmp q))"
    by (simp add: union_mset_def)
  also have "\<dots> \<subseteq># mset (map snd s)"
    using kq inv by (simp add: ginv_def)
  finally have s2: "mset (map snd cl') \<subseteq># mset (map snd s)" .
  have "set newpts \<subseteq> set q"
    unfolding newpts_def using set_difference_subset[of "sort_cmp q" cl]
    by (simp add: sort_cmp_def)
  moreover have "set q \<subseteq> set s" using set_mset_mono[OF wb] by simp
  moreover have "set (take ?c newpts) \<subseteq> set newpts" by (rule set_take_subset)
  ultimately have s3: "set cl' \<subseteq> set s"
    using inv by (auto simp: cl'_def sort_cmp_def ginv_def)
  have s4: "mp \<noteq> 0 \<longrightarrow> length cl' \<le> mp"
    using inv by (auto simp: cl'_def sort_cmp_def ginv_def admit_count_def)
  show ?thesis using s1 s2 s3 s4 by (simp add: ginv_def)
qed

lemma admit_length:
  "length (sort_cmp (cl @ take (admit_count mp cl newpts) newpts)) =
     length cl + min (admit_count mp cl newpts) (length newpts)"
  by (simp add: sort_cmp_def min.commute)

lemma well_behavedD: "well_behaved qfn \<Longrightarrow> qfn s p = Inr found \<Longrightarrow> mset found \<subseteq># mset s"
  unfolding well_behaved_def by blast

lemma group_total_aux:
  assumes wb: "well_behaved qfn"
  shows "ginv s mp cl \<Longrightarrow> length s - length cl = n \<Longrightarrow>
         \<exists>r. group qfn mp s pts cl = Some r
            \<and> (\<forall>cl'. r = Inr cl' \<longrightarrow> ginv s mp cl' \<and> length cl \<le> length cl')
            \<and> ((\<forall>p. \<exists>found. qfn s p = Inr found) \<longrightarrow> (\<exists>cl'. r = Inr cl'))"
proof (induction n arbitrary: cl pts rule: less_induct)
  case (less n)
  have inner: "ginv s mp cl2 \<Longrightarrow> length cl \<le> length cl2 \<Longrightarrow>
      \<exists>r. group qfn mp s pts cl2 = Some r
         \<and> (\<forall>cl'. r = Inr cl' \<longrightarrow> ginv s mp cl' \<and> length cl2 \<le> length cl')
         \<and> ((\<forall>p. \<exists>found. qfn s p = Inr found) \<longrightarrow> (\<exists>cl'. r = Inr cl'))"
    for cl2
  proof (induction pts arbitrary: cl2)
    case Nil
    then show ?case by (simp add: group_Nil)
  next
    case (Cons p rest)
    show ?case
    proof (cases "qfn s p")
      case (Inl e)
      then have "group qfn mp s (p # rest) cl2 = Some (Inl e)" by (rule group_Cons_Inl)
      moreover have "\<not> (\<forall>p. \<exists>found. qfn s p = Inr found)" using Inl by (metis sum.distinct(1))
      ultimately show ?thesis by simp
    next
      case (Inr found)
      define newpts where "newpts = set_difference (sort_cmp found) cl2"
      define cl1 where "cl1 = sort_cmp (cl2 @ take (admit_count mp cl2 newpts) newpts)"
      have inv1: "ginv s mp cl1"
        unfolding cl1_def newpts_def
        by (rule ginv_step[OF well_behavedD[OF wb Inr] Cons.prems(1)])
      have len1: "length cl1 = length cl2 + min (admit_count mp cl2 newpts) (length newpts)"
        unfolding cl1_def by (rule admit_length)
      have first: "\<exists>r3. (if newpts \<noteq> [] \<and> (mp = 0 \<or> length cl1 < mp)
                          then group qfn mp s newpts cl1 else Some (Inr cl1)) = Some r3
                    \<and> (\<forall>cl3. r3 = Inr cl3 \<longrightarrow> ginv s mp cl3 \<and> length cl1 \<le> length cl3)
                    \<and> ((\<forall>p. \<exists>found. qfn s p = Inr found) \<longrightarrow> (\<exists>cl3. r3 = Inr cl3))"
      proof (cases "newpts \<noteq> [] \<and> (mp = 0 \<or> length cl1 < mp)")
        case True
        then have "length cl2 < length cl1"
          using len1 by (auto simp: admit_count_def split: if_splits)
        moreover have "length cl1 \<le> length s" using inv1 by (rule ginv_length)
        ultimately have "length s - length cl1 < n"
          using less.prems(2) Cons.prems(2) by linarith
        from less.IH[OF this inv1 refl, of newpts] True show ?thesis by simp
      next
        case False
        then show ?thesis using inv1 by auto
      qed
      then obtain r3 where c3: "(if newpts \<noteq> [] \<and> (mp = 0 \<or> length cl1 < mp)
                          then group qfn mp s newpts cl1 else Some (Inr cl1)) = Some r3"
        and inv3: "\<And>cl3. r3 = Inr cl3 \<Longrightarrow> ginv s mp cl3 \<and> length cl1 \<le> length cl3"
        and ok3: "(\<forall>p. \<exists>found. qfn s p = Inr found) \<Longrightarrow> \<exists>cl3. r3 = Inr cl3"
        by blast
      have unfold: "group qfn mp s (p # rest) cl2 =
          Some r3 \<bind> (\<lambda>r. case r of Inl e \<Rightarrow> Some (Inl e)
                               | Inr cluster'' \<Rightarrow> group qfn mp s rest cluster'')"
        using c3 unfolding group_Cons_Inr[of qfn s p found, OF Inr] Let_def newpts_def[symmetric]
          cl1_def[symmetric] by simp
      show ?thesis
      proof (cases r3)
        case (Inl e)
        with unfold have "group qfn mp s (p # rest) cl2 = Some (Inl e)" by simp
        moreover have "\<not> (\<forall>p. \<exists>found. qfn s p = Inr found)" using ok3 Inl by blast
        ultimately show ?thesis by simp
      next
        case r3: (Inr cl3)
        from inv3[OF r3] have i3: "ginv s mp cl3" and l3: "length cl1 \<le> length cl3"
          by simp_all
        have "length cl \<le> length cl3" using l3 len1 Cons.prems(2) by linarith
        from Cons.IH[OF i3 this] obtain r where
          r: "group qfn mp s rest cl3 = Some r"
            "\<And>cl'. r = Inr cl' \<Longrightarrow> ginv s mp cl' \<and> length cl3 \<le> length cl'"
            "(\<forall>p. \<exists>found. qfn s p = Inr found) \<longrightarrow> (\<exists>cl'. r = Inr cl')"
          by blast
        have "group qfn mp s (p # rest) cl2 = Some r"
          using unfold r3 r(1) by simp
        moreover have "ginv s mp cl' \<and> length cl2 \<le> length cl'" if "r = Inr cl'" for cl'
          using r(2)[OF that] l3 len1 by simp
        ultimately show ?thesis using r(3) by blast
      qed
    qed
  qed
  show ?case using inner[OF less.prems(1)] by simp
qed

lemma group_total:
  assumes "well_behaved qfn" and "ginv s mp cl"
  shows "\<exists>r. group qfn mp s pts cl = Some r
            \<and> (\<forall>cl'. r = Inr cl' \<longrightarrow> ginv s mp cl' \<and> length cl \<le> length cl')
            \<and> ((\<forall>p. \<exists>found. qfn s p = Inr found) \<longrightarrow> (\<exists>cl'. r = Inr cl'))"
  using assms by (intro group_total_aux[where n = "length s - length cl"]) simp_all

lemma cluster_loop_Nil: "cluster_loop qfn mp [] acc = Some (Inr acc)"
  by (subst cluster_loop.simps) simp

lemma cluster_loop_step: "s \<noteq> [] \<Longrightarrow> cluster_loop qfn mp s acc =
   group qfn mp s [hd s] []
     \<bind> (\<lambda>r. case r of Inl e \<Rightarrow> Some (Inl e)
                  | Inr cl \<Rightarrow> cluster_loop qfn mp (foldl remove_el s cl) (acc @ [cl]))"
  by (subst cluster_loop.simps) simp

lemma mset_foldl_remove_el: "mset (foldl remove_el s cl) = mset s - mset cl"
  by (induction cl arbitrary: s) (simp_all add: remove_el_def)

lemma length_foldl_remove_el_le: "length (foldl remove_el s cl) \<le> length s"
proof -
  have "mset (foldl remove_el s cl) \<subseteq># mset s" by (simp add: mset_foldl_remove_el)
  from size_mset_mono[OF this] show ?thesis by simp
qed

lemma length_foldl_remove_el_less:
  assumes "cl \<noteq> []" "set cl \<subseteq> set s"
  shows "length (foldl remove_el s cl) < length s"
proof -
  from assms obtain c cs where cl: "cl = c # cs" and c: "c \<in> set s"
    by (cases cl) auto
  have "length (foldl remove_el s cl) \<le> length (remove1 c s)"
    unfolding cl using length_foldl_remove_el_le[of "remove1 c s" cs] by (simp add: remove_el_def)
  also have "\<dots> < length s" using c length_pos_if_in_set[OF c] by (simp add: length_remove1)
  finally show ?thesis .
qed

lemma distinct_mset_subseteq:
  assumes "mset xs \<subseteq># mset ys" "distinct ys" shows "distinct xs"
proof -
  have "count (mset xs) a \<le> 1" for a
    using mset_subset_eq_count[OF assms(1), of a] assms(2)
    by (metis distinct_count_atmost_1 nle_le zero_le)
  then show ?thesis
    by (metis distinct_count_atmost_1 le_antisym not_in_iff One_nat_def count_greater_eq_one_iff set_mset_mset)
qed



lemma distinct_subset_mset:
  assumes "distinct xs" "set xs \<subseteq> set ys"
  shows "mset xs \<subseteq># mset ys"
proof (rule mset_subset_eqI)
  fix a
  show "count (mset xs) a \<le> count (mset ys) a"
  proof (cases "a \<in> set xs")
    case True
    then have "count (mset xs) a = 1" using assms(1) by (simp add: distinct_count_atmost_1)
    moreover have "a \<in> set ys" using True assms(2) by auto
    then have "1 \<le> count (mset ys) a" by (simp add: Suc_le_eq)
    ultimately show ?thesis by simp
  next
    case False
    then have "count (mset xs) a = 0" by simp
    then show ?thesis by linarith
  qed
qed

lemma ginv_mset:
  assumes "ginv s mp cl" "distinct (map snd s)"
  shows "mset cl \<subseteq># mset s"
proof -
  have "mset (map snd cl) \<subseteq># mset (map snd s)" using assms(1) by (simp add: ginv_def)
  then have "distinct (map snd cl)" using assms(2) by (rule distinct_mset_subseteq)
  then have "distinct cl" by (simp add: distinct_map)
  moreover have "set cl \<subseteq> set s" using assms(1) by (simp add: ginv_def)
  ultimately show ?thesis
    by (rule distinct_subset_mset)
qed

lemma cluster_loop_partial:
  assumes wb: "well_behaved qfn" and ret: "cluster_loop qfn mp s acc = Some (Inr res)"
  shows "\<exists>new. res = acc @ new \<and> (\<forall>cl\<in>set new. cluster_ok mp cl)
           \<and> (distinct (map snd s) \<longrightarrow> mset (concat new) = mset s)"
proof -
  have "well_behaved qfn \<longrightarrow> (\<forall>r'. (Inr res :: error + Elems list) = Inr r' \<longrightarrow>
          (\<exists>new. r' = acc @ new \<and> (\<forall>cl\<in>set new. cluster_ok mp cl)
           \<and> (distinct (map snd s) \<longrightarrow> mset (concat new) = mset s)))"
    using ret
  proof (rule cluster_loop.raw_induct[where P = "\<lambda>qfn mp s acc (y :: error + Elems list). well_behaved qfn \<longrightarrow>
       (\<forall>res. y = Inr res \<longrightarrow> (\<exists>new. res = acc @ new \<and> (\<forall>cl\<in>set new. cluster_ok mp cl)
           \<and> (distinct (map snd s) \<longrightarrow> mset (concat new) = mset s)))", rotated])
    fix f and qfn :: "Index3D \<Rightarrow> SpatElement \<Rightarrow> error + Elems" and mp s acc y
    assume IH: "\<And>qfn mp s acc y. f qfn mp s acc = Some y \<Longrightarrow> well_behaved qfn \<longrightarrow>
       (\<forall>res. y = Inr res \<longrightarrow> (\<exists>new. res = acc @ new \<and> (\<forall>cl\<in>set new. cluster_ok mp cl)
           \<and> (distinct (map snd s) \<longrightarrow> mset (concat new) = mset s)))"
      and step: "(if s = [] then Some (Inr acc)
        else group qfn mp s [hd s] [] \<bind>
             (\<lambda>r. case r of Inl e \<Rightarrow> Some (Inl e)
                  | Inr c \<Rightarrow> f qfn mp (foldl remove_el s c) (acc @ [c])))
         = Some y"
    show "well_behaved qfn \<longrightarrow>
       (\<forall>res. y = Inr res \<longrightarrow> (\<exists>new. res = acc @ new \<and> (\<forall>cl\<in>set new. cluster_ok mp cl)
           \<and> (distinct (map snd s) \<longrightarrow> mset (concat new) = mset s)))"
    proof (intro impI allI)
      fix res
      assume wb: "well_behaved qfn" and y: "y = Inr res"
      show "\<exists>new. res = acc @ new \<and> (\<forall>cl\<in>set new. cluster_ok mp cl)
           \<and> (distinct (map snd s) \<longrightarrow> mset (concat new) = mset s)"
      proof (cases "s = []")
        case True
        with step y have "res = acc @ []" by simp
        with True show ?thesis by fastforce
      next
        case False
        from step False have
          "(\<exists>e. group qfn mp s [hd s] [] = Some (Inl e) \<and> y = Inl e)
           \<or> (\<exists>cl. group qfn mp s [hd s] [] = Some (Inr cl)
                  \<and> f qfn mp (foldl remove_el s cl) (acc @ [cl]) = Some y)"
          by (simp only: if_False bind_sum_Some)
        with y obtain cl where g: "group qfn mp s [hd s] [] = Some (Inr cl)"
          and r: "f qfn mp (foldl remove_el s cl) (acc @ [cl]) = Some y"
          by auto
        from group_total[of qfn s mp "[]" "[hd s]", OF wb ginv_Nil] g
        have inv: "ginv s mp cl" by auto
        let ?s' = "foldl remove_el s cl"
        from IH[OF r] wb y obtain new where
          new: "res = (acc @ [cl]) @ new" "\<forall>c\<in>set new. cluster_ok mp c"
          "distinct (map snd ?s') \<longrightarrow> mset (concat new) = mset ?s'" by blast
        have ok: "cluster_ok mp cl" using inv by (simp add: ginv_def cluster_ok_def)
        have part: "mset (concat (cl # new)) = mset s" if d: "distinct (map snd s)"
        proof -
          have sub: "mset cl \<subseteq># mset s" using inv d by (rule ginv_mset)
          have "mset (map snd ?s') \<subseteq># mset (map snd s)"
            using image_mset_subseteq_mono[of "mset ?s'" "mset s" snd]
            by (simp add: mset_foldl_remove_el)
          then have "distinct (map snd ?s')" using d by (rule distinct_mset_subseteq)
          with new(3) have "mset (concat new) = mset s - mset cl"
            by (simp add: mset_foldl_remove_el)
          then show ?thesis using sub by simp
        qed
        show ?thesis
          using new(1,2) ok part by (intro exI[of _ "cl # new"]) simp
      qed
    qed
  qed
  with wb show ?thesis by simp
qed

lemma group_seed:
  assumes wb: "well_behaved qfn"
    and succ: "\<forall>p. \<exists>found. qfn s p = Inr found"
    and seed: "qfn s e = Inr found" "found \<noteq> []"
  shows "\<exists>cl. group qfn mp s [e] [] = Some (Inr cl) \<and> ginv s mp cl \<and> cl \<noteq> []"
proof -
  define newpts where "newpts = set_difference (sort_cmp found) []"
  define cl1 where "cl1 = sort_cmp ([] @ take (admit_count mp [] newpts) newpts)"
  have inv1: "ginv s mp cl1"
    unfolding cl1_def newpts_def by (rule ginv_step[OF well_behavedD[OF wb seed(1)] ginv_Nil])
  have "newpts \<noteq> []" using seed(2)
    by (simp add: newpts_def set_difference_Nil2 sort_cmp_def)
      (metis length_0_conv length_sort)
  then have len1: "0 < length cl1"
    unfolding cl1_def admit_length by (auto simp: admit_count_def)
  have "\<exists>cl3. (if newpts \<noteq> [] \<and> (mp = 0 \<or> length cl1 < mp)
                      then group qfn mp s newpts cl1 else Some (Inr cl1)) = Some (Inr cl3)
                \<and> ginv s mp cl3 \<and> length cl1 \<le> length cl3"
    using group_total[of qfn s mp cl1 newpts, OF wb inv1] inv1 succ by auto
  then obtain cl3 where c3: "(if newpts \<noteq> [] \<and> (mp = 0 \<or> length cl1 < mp)
                      then group qfn mp s newpts cl1 else Some (Inr cl1)) = Some (Inr cl3)"
    and inv3: "ginv s mp cl3" and len3: "length cl1 \<le> length cl3" by blast
  have "group qfn mp s [e] [] = Some (Inr cl3)"
    using c3 unfolding group_Cons_Inr[of qfn s e found, OF seed(1)] Let_def
      newpts_def[symmetric] cl1_def[symmetric]
    by (simp add: group_Nil)
  moreover have "cl3 \<noteq> []" using len1 len3 by auto
  ultimately show ?thesis using inv3 by blast
qed

lemma cluster_loop_total:
  assumes wb: "well_behaved qfn"
    and succ: "\<And>s' p. \<exists>found. qfn s' p = Inr found"
    and progress: "\<And>s' found. s' \<noteq> [] \<Longrightarrow> mset s' \<subseteq># mset s
                      \<Longrightarrow> qfn s' (hd s') = Inr found \<Longrightarrow> found \<noteq> []"
  shows "\<exists>res. cluster_loop qfn mp s acc = Some (Inr res)"
  using progress
proof (induction "length s" arbitrary: s acc rule: less_induct)
  case less
  show ?case
  proof (cases "s = []")
    case True
    then show ?thesis by (simp add: cluster_loop_Nil)
  next
    case False
    from succ obtain found where f: "qfn s (hd s) = Inr found" by blast
    have ne: "found \<noteq> []" using less.prems[OF False _ f] by simp
    have "\<forall>p. \<exists>found. qfn s p = Inr found" using succ by blast
    from group_seed[of qfn s "hd s" found mp, OF wb this f ne]
    obtain cl3 where g: "group qfn mp s [hd s] [] = Some (Inr cl3)"
      and inv3: "ginv s mp cl3" and ne3: "cl3 \<noteq> []" by blast
    let ?s' = "foldl remove_el s cl3"
    have "set cl3 \<subseteq> set s" using inv3 by (simp add: ginv_def)
    with ne3 have smaller: "length ?s' < length s" by (rule length_foldl_remove_el_less)
    have sub: "mset ?s' \<subseteq># mset s" by (simp add: mset_foldl_remove_el)
    have "\<exists>res. cluster_loop qfn mp ?s' (acc @ [cl3]) = Some (Inr res)"
    proof (rule less.hyps[OF smaller])
      fix s' :: Index3D and found
      assume a: "s' \<noteq> []" "mset s' \<subseteq># mset ?s'" "qfn s' (hd s') = Inr found"
      from a(2) sub have "mset s' \<subseteq># mset s" by (rule subset_mset.order_trans)
      from less.prems[OF a(1) this a(3)] show "found \<noteq> []" .
    qed
    then show ?thesis using g False by (simp add: cluster_loop_step)
  qed
qed

lemma cluster_loop_stuck:
  assumes "s \<noteq> []" "qfn s (hd s) = Inr []"
  shows "cluster_loop qfn mp s acc = None"
proof -
  have "\<not> (s \<noteq> [] \<and> qfn s (hd s) = Inr [])" if "cluster_loop qfn mp s acc = Some y" for y
    using that
  proof (rule cluster_loop.raw_induct[where
        P = "\<lambda>qfn mp s acc (y :: error + Elems list).
               \<not> (s \<noteq> [] \<and> qfn s (hd s) = Inr [])", rotated])
    fix f and qfn :: "Index3D \<Rightarrow> SpatElement \<Rightarrow> error + Elems" and mp s acc y
    assume IH: "\<And>qfn mp s acc y. f qfn mp s acc = Some y
                  \<Longrightarrow> \<not> (s \<noteq> [] \<and> qfn s (hd s) = Inr [])"
      and step: "(if s = [] then Some (Inr acc)
        else group qfn mp s [hd s] [] \<bind>
             (\<lambda>r. case r of Inl e \<Rightarrow> Some (Inl e)
                  | Inr c \<Rightarrow> f qfn mp (foldl remove_el s c) (acc @ [c])))
         = Some y"
    show "\<not> (s \<noteq> [] \<and> qfn s (hd s) = Inr [])"
    proof
      assume a: "s \<noteq> [] \<and> qfn s (hd s) = Inr []"
      then have "group qfn mp s [hd s] [] = Some (Inr [])"
        by (simp add: group_Cons_Inr[of qfn s "hd s" "[]"] group_Nil sort_cmp_def admit_count_def)
      with step a have "f qfn mp s (acc @ [[]]) = Some y" by simp
      from IH[OF this] a show False by simp
    qed
  qed
  with assms show ?thesis by (cases "cluster_loop qfn mp s acc") auto
qed

lemma build_index_eq: "build_index indices pointfn = map (\<lambda>idx. (pointfn idx, idx)) indices"
proof -
  have "foldl (\<lambda>s idx. insert_el (pointfn idx, idx) s) acc indices
          = acc @ map (\<lambda>idx. (pointfn idx, idx)) indices" for acc
    by (induction indices arbitrary: acc) (simp_all add: insert_el_def)
  then show ?thesis by (simp add: build_index_def)
qed

lemma mset_erase_loop: "mset (erase_loop p dst es) \<subseteq># mset es"
proof (induction p dst es rule: erase_loop.induct)
  case (1 p dst)
  then show ?case by simp
next
  case (2 p dst e es)
  show ?case
  proof (cases "distance p (fst e) > dst")
    case True
    show ?thesis
    proof (cases es)
      case Nil
      with True show ?thesis by simp
    next
      case (Cons e' es')
      have "mset (erase_loop p dst es') \<subseteq># mset es'" using 2(1)[OF True Cons] .
      then have "add_mset e' (mset (erase_loop p dst es')) \<subseteq># add_mset e' (mset es')"
        by simp
      also have "\<dots> \<subseteq># add_mset e (add_mset e' (mset es'))"
        by (simp add: subset_mset.le_iff_add)
      finally show ?thesis using True Cons by simp
    qed
  next
    case False
    with 2(2)[OF False] show ?thesis by simp
  qed
qed

lemma reserve_Inr: "reserve mem n = Inr u \<longleftrightarrow> n \<le> mem"
  by (simp add: reserve_def)

lemma distance_queryfn_Inr:
  "distance_queryfn mem s p dst mp = Inr found
     \<longleftrightarrow> mp \<le> mem \<and> found = erase_loop (fst p) dst (nearest s (fst p) mp)"
  by (auto simp: distance_queryfn_def reserve_def)

lemma predicate_queryfn_Inr:
  "predicate_queryfn mem s p predicate mp = Inr found
     \<longleftrightarrow> mp \<le> mem \<and> found = satisfies s (\<lambda>e. predicate p e)"
  by (auto simp: predicate_queryfn_def reserve_def)

lemma well_behaved_distance:
  "well_behaved (\<lambda>sidx p. distance_queryfn mem sidx p dst max_points)"
proof -
  have "mset found \<subseteq># mset s" if "distance_queryfn mem s p dst max_points = Inr found"
    for s p found
  proof -
    from that have "found = erase_loop (fst p) dst (nearest s (fst p) max_points)"
      by (simp add: distance_queryfn_Inr)
    then have "mset found \<subseteq># mset (nearest s (fst p) max_points)"
      by (simp add: mset_erase_loop)
    also have "\<dots> \<subseteq># mset (sort_key (\<lambda>e. distance (fst p) (fst e)) s)"
      unfolding nearest_def by (rule mset_take_subseteq)
    finally show ?thesis by simp
  qed
  then show ?thesis unfolding well_behaved_def by blast
qed

lemma well_behaved_predicate:
  "well_behaved (\<lambda>sidx p. predicate_queryfn mem sidx p predicate max_points)"
  unfolding well_behaved_def by (auto simp: predicate_queryfn_Inr satisfies_def)

lemma group_preserves:
  assumes pres: "\<And>cl newpts. Q cl \<Longrightarrow> Q (sort_cmp (cl @ take (admit_count mp cl newpts) newpts))"
    and ret: "group qfn mp s pts cl = Some (Inr cl')" and q: "Q cl"
  shows "Q cl'"
proof -
  have "mp = mp \<longrightarrow> Q cl \<longrightarrow> (\<forall>c. (Inr cl' :: error + Elems) = Inr c \<longrightarrow> Q c)"
    using ret
  proof (rule group.raw_induct[where
        P = "\<lambda>qfn m s pts cl (y :: error + Elems).
               m = mp \<longrightarrow> Q cl \<longrightarrow> (\<forall>c. y = Inr c \<longrightarrow> Q c)", rotated])
    fix f and qfn :: "Index3D \<Rightarrow> SpatElement \<Rightarrow> error + Elems" and m s pts cl y
    assume IH: "\<And>qfn m s pts cl y. f qfn m s pts cl = Some y
                  \<Longrightarrow> m = mp \<longrightarrow> Q cl \<longrightarrow> (\<forall>c. y = Inr c \<longrightarrow> Q c)"
      and step: "(case pts of [] \<Rightarrow> Some (Inr cl)
        | p # rest \<Rightarrow>
            case qfn s p of Inl e \<Rightarrow> Some (Inl e)
            | Inr found \<Rightarrow>
                let tmp = sort_cmp found;
                    newpts = set_difference tmp cl;
                    c = if m \<noteq> 0 \<and> m < length newpts + length cl
                        then m - length cl else length newpts;
                    cluster' = sort_cmp (cl @ take c newpts)
                in (if newpts \<noteq> [] \<and> (m = 0 \<or> length cluster' < m)
                    then f qfn m s newpts cluster'
                    else Some (Inr cluster')) \<bind>
                   (\<lambda>r. case r of Inl e \<Rightarrow> Some (Inl e)
                        | Inr cluster'' \<Rightarrow> f qfn m s rest cluster'')) = Some y"
    show "m = mp \<longrightarrow> Q cl \<longrightarrow> (\<forall>c. y = Inr c \<longrightarrow> Q c)"
    proof (intro impI allI)
      fix c
      assume m: "m = mp" and ok: "Q cl" and y: "y = Inr c"
      show "Q c"
      proof (cases pts)
        case Nil
        with step ok y show ?thesis by simp
      next
        case (Cons p rest)
        show ?thesis
        proof (cases "qfn s p")
          case (Inl e)
          with step Cons y show ?thesis by simp
        next
          case (Inr found)
          define newpts where "newpts = set_difference (sort_cmp found) cl"
          define cl1 where "cl1 = sort_cmp (cl @ take (admit_count m cl newpts) newpts)"
          have ok1: "Q cl1"
            unfolding cl1_def m by (rule pres[OF ok])
          have "(if newpts \<noteq> [] \<and> (m = 0 \<or> length cl1 < m)
                  then f qfn m s newpts cl1 else Some (Inr cl1))
                \<bind> (\<lambda>r. case r of Inl e \<Rightarrow> Some (Inl e)
                             | Inr cluster'' \<Rightarrow> f qfn m s rest cluster'') = Some y"
            using step unfolding Cons list.case Inr sum.case Let_def newpts_def cl1_def
              admit_count_def .
          with y obtain cl3 where
            c3: "(if newpts \<noteq> [] \<and> (m = 0 \<or> length cl1 < m)
                  then f qfn m s newpts cl1 else Some (Inr cl1)) = Some (Inr cl3)"
            and r: "f qfn m s rest cl3 = Some y"
            unfolding bind_sum_Some by auto
          have "Q cl3"
          proof (cases "newpts \<noteq> [] \<and> (m = 0 \<or> length cl1 < m)")
            case True
            with c3 have "f qfn m s newpts cl1 = Some (Inr cl3)" by simp
            from IH[OF this] ok1 m show ?thesis by simp
          next
            case False
            with c3 ok1 show ?thesis by simp
          qed
          with IH[OF r] m y show ?thesis by simp
        qed
      qed
    qed
  qed
  with q show ?thesis by simp
qed

lemma group_ok:
  assumes "group qfn mp s pts cl = Some (Inr cl')" "cluster_ok mp cl"
  shows "cluster_ok mp cl'"
  using assms(1,2)
  by (rule group_preserves[where Q = "cluster_ok mp", rotated])
     (auto simp: cluster_ok_def sort_cmp_def admit_count_def)

lemma cluster_loop_ok:
  assumes "cluster_loop qfn mp s acc = Some (Inr res)"
  shows "\<exists>new. res = acc @ new \<and> (\<forall>cl\<in>set new. cluster_ok mp cl)"
proof -
  have "\<forall>r'. (Inr res :: error + Elems list) = Inr r'
          \<longrightarrow> (\<exists>new. r' = acc @ new \<and> (\<forall>cl\<in>set new. cluster_ok mp cl))"
    using assms
  proof (rule cluster_loop.raw_induct[where P = "\<lambda>qfn mp s acc (y :: error + Elems list).
       \<forall>res. y = Inr res \<longrightarrow> (\<exists>new. res = acc @ new \<and> (\<forall>cl\<in>set new. cluster_ok mp cl))",
       rotated])
    fix f and qfn :: "Index3D \<Rightarrow> SpatElement \<Rightarrow> error + Elems" and mp s acc y
    assume IH: "\<And>qfn mp s acc y. f qfn mp s acc = Some y \<Longrightarrow>
       \<forall>res. y = Inr res \<longrightarrow> (\<exists>new. res = acc @ new \<and> (\<forall>cl\<in>set new. cluster_ok mp cl))"
      and step: "(if s = [] then Some (Inr acc)
        else group qfn mp s [hd s] [] \<bind>
             (\<lambda>r. case r of Inl e \<Rightarrow> Some (Inl e)
                  | Inr c \<Rightarrow> f qfn mp (foldl remove_el s c) (acc @ [c])))
         = Some y"
    show "\<forall>res. y = Inr res \<longrightarrow> (\<exists>new. res = acc @ new \<and> (\<forall>cl\<in>set new. cluster_ok mp cl))"
    proof (intro allI impI)
      fix res assume y: "y = Inr res"
      show "\<exists>new. res = acc @ new \<and> (\<forall>cl\<in>set new. cluster_ok mp cl)"
      proof (cases "s = []")
        case True
        with step y have "res = acc @ []" by simp
        then show ?thesis by fastforce
      next
        case False
        from step False have
          "(\<exists>e. group qfn mp s [hd s] [] = Some (Inl e) \<and> y = Inl e)
           \<or> (\<exists>cl. group qfn mp s [hd s] [] = Some (Inr cl)
                  \<and> f qfn mp (foldl remove_el s cl) (acc @ [cl]) = Some y)"
          by (simp only: if_False bind_sum_Some)
        with y obtain cl where g: "group qfn mp s [hd s] [] = Some (Inr cl)"
          and r: "f qfn mp (foldl remove_el s cl) (acc @ [cl]) = Some y"
          by auto
        have "cluster_ok mp []" by (simp add: cluster_ok_def)
        with g have ok: "cluster_ok mp cl" by (rule group_ok)
        from IH[OF r] y obtain new where
          "res = (acc @ [cl]) @ new" "\<forall>c\<in>set new. cluster_ok mp c"
          by blast
        with ok show ?thesis by (intro exI[of _ "cl # new"]) simp
      qed
    qed
  qed
  then show ?thesis by simp
qed

lemma group_cap:
  assumes "group qfn mp s pts cl = Some (Inr cl')" "length cl \<le> mp" "0 < mp"
  shows "length cl' \<le> mp"
  using assms(1,2)
  by (rule group_preserves[where Q = "\<lambda>cl. length cl \<le> mp", rotated])
     (use assms(3) in \<open>auto simp: sort_cmp_def admit_count_def\<close>)

lemma group_sorted:
  assumes "group qfn mp s pts cl = Some (Inr cl')" "sorted (map snd cl)"
  shows "sorted (map snd cl')"
  using assms(1,2)
  by (rule group_preserves[where Q = "\<lambda>cl. sorted (map snd cl)", rotated])
     (simp add: sort_cmp_def)

lemma cluster_Inr:
  "cluster sindex mp qfn = Some (Inr res)
     \<longleftrightarrow> (\<exists>cls. cluster_loop qfn mp sindex [] = Some (Inr cls) \<and> res = map (map snd) cls)"
  by (cases "cluster_loop qfn mp sindex []")
     (auto simp: cluster_def map_sum_def split: sum.splits)

lemma cluster_result_ok:
  assumes "cluster sindex mp qfn = Some (Inr res)" "c \<in> set res"
  shows "sorted c \<and> (mp \<noteq> 0 \<longrightarrow> length c \<le> mp)"
proof -
  from assms(1) obtain cls where l: "cluster_loop qfn mp sindex [] = Some (Inr cls)"
    and res: "res = map (map snd) cls"
    unfolding cluster_Inr by blast
  from cluster_loop_ok[OF l] have "\<forall>cl\<in>set cls. cluster_ok mp cl" by simp
  with assms(2) res show ?thesis by (auto simp: cluster_ok_def)
qed

lemma cluster_result_mset:
  assumes "well_behaved qfn" "distinct (map snd sindex)"
    "cluster sindex mp qfn = Some (Inr res)"
  shows "mset (concat res) = mset (map snd sindex)"
proof -
  from assms(3) obtain cls where l: "cluster_loop qfn mp sindex [] = Some (Inr cls)"
    and res: "res = map (map snd) cls"
    unfolding cluster_Inr by blast
  from cluster_loop_partial[OF assms(1) l] assms(2)
  have "mset (concat cls) = mset sindex" by simp
  then have "mset (map snd (concat cls)) = mset (map snd sindex)" by simp
  then show ?thesis unfolding res by (simp add: map_concat)
qed

lemma filter_count_one:
  assumes "distinct (concat xs)" "i \<in> set (concat xs)"
  shows "length (filter (\<lambda>c. i \<in> set c) xs) = 1"
  using assms
proof (induction xs)
  case Nil
  then show ?case by simp
next
  case (Cons c cs)
  show ?case
  proof (cases "i \<in> set c")
    case True
    with Cons.prems(1) have "\<forall>c'\<in>set cs. i \<notin> set c'" by auto
    then have "filter (\<lambda>c. i \<in> set c) cs = []" by (simp add: filter_empty_conv)
    with True show ?thesis by simp
  next
    case False
    with Cons show ?thesis by auto
  qed
qed

lemma partition_of_mset:
  assumes "mset (concat res) = mset indices" "distinct indices"
  shows "partition_of indices res"
proof -
  have d: "distinct (concat res)"
    using assms by (metis mset_eq_imp_distinct_iff)
  have s: "set (concat res) = set indices"
    using assms(1) by (rule mset_eq_setD)
  have "length (filter (\<lambda>c. i \<in> set c) res) = 1" if "i \<in> set indices" for i
  proof -
    have "i \<in> set (concat res)" using that s by simp
    with d show ?thesis by (rule filter_count_one)
  qed
  moreover have "set c \<subseteq> set indices \<and> distinct c" if "c \<in> set res" for c
    using that d s by (auto simp: distinct_concat_iff)
  ultimately show ?thesis by (simp add: partition_of_def)
qed

lemma build_index_keys: "map snd (build_index indices pointfn) = indices"
  by (simp add: build_index_eq comp_def)

lemma distance_self: "distance p p = 0"
  by (cases p) (simp add: distance_def)

lemma sort_key_hd_min:
  assumes "x \<in> set xs"
  shows "\<exists>a as. sort_key f xs = a # as \<and> f a \<le> f x"
proof (cases "sort_key f xs")
  case Nil
  then have "set (sort_key f xs) = {}" by simp
  with assms show ?thesis by simp
next
  case (Cons a as)
  have "sorted (map f (sort_key f xs))" by (rule sorted_sort_key)
  then have "\<forall>y\<in>set (a # as). f a \<le> f y" unfolding Cons by auto
  moreover have "x \<in> set (a # as)" using assms Cons by (metis set_sort)
  ultimately show ?thesis using Cons by blast
qed

lemma nearest_progress:
  assumes "s \<noteq> []" "0 < mp" "0 \<le> dst"
  shows "erase_loop (fst (hd s)) dst (nearest s (fst (hd s)) mp) \<noteq> []"
proof -
  let ?f = "\<lambda>e. distance (fst (hd s)) (fst e)"
  from assms(1) have "hd s \<in> set s" by simp
  from sort_key_hd_min[OF this, of ?f] obtain a as where
    sk: "sort_key ?f s = a # as" and le: "?f a \<le> ?f (hd s)" by blast
  from le have "\<not> distance (fst (hd s)) (fst a) > dst"
    using assms(3) by (simp add: distance_self)
  moreover obtain k where "mp = Suc k" using assms(2) by (cases mp) auto
  ultimately show ?thesis
    by (simp add: nearest_def sk)
qed

lemma satisfies_progress:
  assumes "s \<noteq> []" "predicate (hd s) (hd s)"
  shows "satisfies s (\<lambda>e. predicate (hd s) e) \<noteq> []"
proof -
  from assms(1) have "hd s \<in> set s" by simp
  with assms(2) have "hd s \<in> set (satisfies s (\<lambda>e. predicate (hd s) e))"
    by (simp add: satisfies_def)
  then show ?thesis by auto
qed

lemma cluster_total:
  assumes "well_behaved qfn"
    and "\<And>s' p. \<exists>found. qfn s' p = Inr found"
    and "\<And>s' found. s' \<noteq> [] \<Longrightarrow> mset s' \<subseteq># mset s
            \<Longrightarrow> qfn s' (hd s') = Inr found \<Longrightarrow> found \<noteq> []"
  shows "\<exists>res. cluster s mp qfn = Some (Inr res)"
  using cluster_loop_total[of qfn s mp "[]", OF assms] unfolding cluster_Inr by auto

lemma cluster_stuck:
  assumes "s \<noteq> []" "qfn s (hd s) = Inr []"
  shows "cluster s mp qfn = None"
  using cluster_loop_stuck[of s qfn mp "[]"] assms by (simp add: cluster_def)

lemma cluster_Nil: "cluster [] mp qfn = Some (Inr [])"
  by (simp add: cluster_def cluster_loop_Nil)

lemma cluster_refused:
  assumes "s \<noteq> []" "qfn s (hd s) = Inl e"
  shows "cluster s mp qfn = Some (Inl e)"
  using assms by (simp add: cluster_def cluster_loop_step group_Cons_Inl)

lemma group_Cons:
  "group qfn mp s (p # rest) cl =
     (case qfn s p of
        Inl e \<Rightarrow> Some (Inl e)
      | Inr found \<Rightarrow>
          (let newpts = set_difference (sort_cmp found) cl;
               cluster' = sort_cmp (cl @ take (admit_count mp cl newpts) newpts)
           in (if newpts \<noteq> [] \<and> (mp = 0 \<or> length cluster' < mp)
               then group qfn mp s newpts cluster'
               else Some (Inr cluster'))
              \<bind> (\<lambda>r. case r of Inl e \<Rightarrow> Some (Inl e)
                           | Inr cluster'' \<Rightarrow> group qfn mp s rest cluster'')))"
  by (cases "qfn s p") (simp_all add: group_Cons_Inl group_Cons_Inr[of qfn s p])

lemmas cluster_eval =
  cluster_dist_def cluster_pred_def cluster_pts_def cluster_def cluster_loop_Nil cluster_loop_step
  group_Nil group_Cons admit_count_def distance_queryfn_def predicate_queryfn_def reserve_def
  satisfies_def nearest_def build_index_eq sort_cmp_def remove_el_def distance_def Let_def

section \<open>Claims about clustering\<close>

text \<open>
  C1.  For an input with distinct payload indices, whenever the distance variant or
  the predicate variant of \<^verbatim>\<open>cluster\<close> returns, the returned clusters partition the
  input: each input index is in exactly one cluster, and a cluster has no foreign
  and no repeated index.  The same holds of the core for any query function that
  returns stored elements only.
\<close>

theorem cluster_partition:
  assumes "distinct indices"
  shows "(cluster_dist mem indices pointfn dst max_points = Some (Inr res)
            \<longrightarrow> partition_of indices res)
       \<and> (cluster_pred mem indices pointfn predicate max_points' = Some (Inr res')
            \<longrightarrow> partition_of indices res')
       \<and> (well_behaved qfn \<and> map snd sindex = indices
              \<and> cluster sindex max_points'' qfn = Some (Inr res'')
            \<longrightarrow> partition_of indices res'')"
proof -
  have d: "distinct (map snd (build_index indices pointfn))"
    using assms by (simp add: build_index_keys)
  have "partition_of indices res"
    if "cluster_dist mem indices pointfn dst max_points = Some (Inr res)"
  proof -
    from that have "mset (concat res) = mset (map snd (build_index indices pointfn))"
      unfolding cluster_dist_def
      by (rule cluster_result_mset[OF well_behaved_distance d])
    then show ?thesis using assms by (simp add: build_index_keys partition_of_mset)
  qed
  moreover have "partition_of indices res'"
    if "cluster_pred mem indices pointfn predicate max_points' = Some (Inr res')"
  proof -
    from that have "mset (concat res') = mset (map snd (build_index indices pointfn))"
      unfolding cluster_pred_def
      by (rule cluster_result_mset[OF well_behaved_predicate d])
    then show ?thesis using assms by (simp add: build_index_keys partition_of_mset)
  qed
  moreover have "partition_of indices res''"
    if "well_behaved qfn" "map snd sindex = indices"
      "cluster sindex max_points'' qfn = Some (Inr res'')"
  proof -
    have "distinct (map snd sindex)" using assms that(2) by simp
    from cluster_result_mset[OF that(1) this that(3)]
    show ?thesis using assms that(2) by (simp add: partition_of_mset)
  qed
  ultimately show ?thesis by blast
qed

theorem cluster_partition_witness:
  "distinct [0, 1, 2 :: nat]
   \<and> cluster_dist 2 [0, 1, 2] line_pts 6 2 = Some (Inr [[0, 1], [2]])
   \<and> cluster_pred 2 [0, 1, 2] line_pts always 2 = Some (Inr [[0, 1], [2]])
   \<and> partition_of [0, 1, 2] [[0, 1], [2]]"
proof -
  have d: "distinct [0, 1, 2 :: nat]" by simp
  have e1: "cluster_dist 2 [0, 1, 2] line_pts 6 2 = Some (Inr [[0, 1], [2]])"
    by (simp add: cluster_eval line_pts_def)
  have e2: "cluster_pred 2 [0, 1, 2] line_pts always 2 = Some (Inr [[0, 1], [2]])"
    by (simp add: cluster_eval line_pts_def always_def)
  from cluster_partition[OF d, where mem = 2 and pointfn = line_pts and dst = 6
      and max_points = 2 and res = "[[0, 1], [2]]" and predicate = always
      and max_points' = 2 and res' = "[[0, 1], [2]]"] e1 e2
  have "partition_of [0, 1, 2] [[0, 1], [2]]" by blast
  with d e1 e2 show ?thesis by blast
qed

text \<open>
  C2.  The code at the scenario of the claim: two pairs of points 0.01 apart, the
  pairs 10 apart, threshold 1 and \<^verbatim>\<open>max_points = 0\<close>.  \<^verbatim>\<open>distance_queryfn\<close> reserves
  room for no element, which every allocator grants, and asks the index for the 0
  nearest elements; every cluster stays empty, nothing is removed from the index,
  and the outer loop never ends: the call has no value, with or without the far
  fifth point.
\<close>

theorem cluster_zero_cap_never_returns:
  "cluster_pts mem two_pairs 1 0 = None \<and> cluster_pts mem two_pairs_far 1 0 = None"
proof
  show "cluster_pts mem two_pairs 1 0 = None"
    unfolding cluster_pts_def
    by (rule cluster_stuck)
       (simp_all add: build_index_eq two_pairs_def distance_queryfn_def reserve_def
          nearest_def)
  show "cluster_pts mem two_pairs_far 1 0 = None"
    unfolding cluster_pts_def
    by (rule cluster_stuck)
       (simp_all add: build_index_eq two_pairs_far_def two_pairs_def distance_queryfn_def
          reserve_def nearest_def)
qed

text \<open>
  C3.  With a positive \<^verbatim>\<open>max_points\<close>, every cluster that \<^verbatim>\<open>cluster\<close> returns has at
  most \<^verbatim>\<open>max_points\<close> members, for any query function and so for both variants; and
  the grouping step keeps a cluster within the cap.
\<close>

theorem cluster_size_cap:
  assumes "0 < max_points"
  shows "(cluster sindex max_points qfn = Some (Inr res0)
            \<longrightarrow> (\<forall>c\<in>set res0. length c \<le> max_points))
       \<and> (cluster_dist mem indices pointfn dst max_points = Some (Inr res)
            \<longrightarrow> (\<forall>c\<in>set res. length c \<le> max_points))
       \<and> (cluster_pred mem indices pointfn predicate max_points = Some (Inr res')
            \<longrightarrow> (\<forall>c\<in>set res'. length c \<le> max_points))
       \<and> (group qfn max_points sindex pts cl = Some (Inr cl') \<and> length cl \<le> max_points
            \<longrightarrow> length cl' \<le> max_points)"
proof -
  have core: "\<forall>c\<in>set r. length c \<le> max_points"
    if "cluster s max_points q = Some (Inr r)" for s q r
    using cluster_result_ok[OF that] assms by simp
  show ?thesis
    using core assms unfolding cluster_dist_def cluster_pred_def
    by (blast intro: group_cap)
qed

theorem cluster_size_cap_witness:
  "0 < (2 :: nat)
   \<and> cluster_dist 2 [0, 1, 2] line_pts 6 2 = Some (Inr [[0, 1], [2]])
   \<and> length [0, 1 :: nat] \<le> 2 \<and> length [2 :: nat] \<le> 2"
proof -
  have p: "0 < (2 :: nat)" by simp
  have e1: "cluster_dist 2 [0, 1, 2] line_pts 6 2 = Some (Inr [[0, 1], [2]])"
    by (simp add: cluster_eval line_pts_def)
  from cluster_size_cap[OF p, where mem = 2 and indices = "[0, 1, 2]" and pointfn = line_pts
      and dst = 6 and res = "[[0, 1], [2]]"] e1
  have "\<forall>c\<in>set [[0, 1], [2 :: nat]]. length c \<le> 2" by blast
  with p e1 show ?thesis by simp
qed

text \<open>
  C4.  The code at three points on a line, 5 apart, with threshold 1 and
  \<^verbatim>\<open>max_points = 3\<close>, on any machine that grants room for three elements: the
  filtering loop of \<^verbatim>\<open>distance_queryfn\<close> erases the point at distance 5 and steps over
  the one behind it, so the query from point 0 yields point 2 at distance 10, and
  \<^verbatim>\<open>cluster\<close> puts indices 0 and 2 into one cluster although no two of the three
  points are within the threshold.
\<close>

theorem distance_query_keeps_far_point:
  "distance_queryfn (3 + mem) (build_index [0, 1, 2] line_pts) (line_pts 0, 0) 1 3
     = Inr [(line_pts 0, 0), (line_pts 2, 2)]
   \<and> 1 < distance (line_pts 0) (line_pts 2)
   \<and> 1 < distance (line_pts 0) (line_pts 1)
   \<and> 1 < distance (line_pts 1) (line_pts 2)
   \<and> cluster_dist (3 + mem) [0, 1, 2] line_pts 1 3 = Some (Inr [[0, 2], [1]])"
  by (simp add: cluster_eval line_pts_def)

text \<open>
  C5, as stated, fails: on a single point with a predicate that holds of no pair and
  \<^verbatim>\<open>max_points = 1\<close>, the seed is not among its own neighbours, its cluster stays
  empty, and the outer loop never removes it.  The same happens in the distance
  variant with a negative threshold.  Room for one element is granted in both runs.
\<close>

theorem cluster_never_returns:
  "cluster_pred 1 [0] line_pts never 1 = None \<and> cluster_dist 1 [0] line_pts (- 1) 1 = None"
proof
  show "cluster_pred 1 [0] line_pts never 1 = None"
    unfolding cluster_pred_def
    by (rule cluster_stuck)
       (simp_all add: build_index_eq predicate_queryfn_def reserve_def satisfies_def never_def)
  show "cluster_dist 1 [0] line_pts (- 1) 1 = None"
    unfolding cluster_dist_def
    by (rule cluster_stuck)
       (simp_all add: build_index_eq distance_queryfn_def reserve_def nearest_def
          distance_self)
qed

text \<open>
  C5, amended.  The distance variant runs until the index is empty and returns, for
  every input, when \<^verbatim>\<open>max_points\<close> is positive, the threshold is not negative and the
  allocator grants room for \<^verbatim>\<open>max_points\<close> elements; the predicate variant does, for
  every input and every \<^verbatim>\<open>max_points\<close> that the allocator grants room for, when the
  predicate holds between each input element and itself.  When the allocator
  refuses room for \<^verbatim>\<open>max_points\<close> elements, either variant ends on a non-empty input
  with \<^verbatim>\<open>std::bad_alloc\<close> in the first query, the index still full.
\<close>

theorem cluster_terminates:
  "(0 < max_points \<and> max_points \<le> mem \<and> 0 \<le> dst
      \<longrightarrow> (\<exists>res. cluster_dist mem indices pointfn dst max_points = Some (Inr res)))
   \<and> ((\<forall>i\<in>set indices. predicate (pointfn i, i) (pointfn i, i)) \<and> max_points' \<le> mem
      \<longrightarrow> (\<exists>res. cluster_pred mem indices pointfn predicate max_points' = Some (Inr res)))
   \<and> (indices \<noteq> [] \<and> mem < max_points''
      \<longrightarrow> cluster_dist mem indices pointfn dst' max_points'' = Some (Inl BadAlloc)
        \<and> cluster_pred mem indices pointfn predicate' max_points'' = Some (Inl BadAlloc))"
proof (intro conjI impI)
  assume a: "0 < max_points \<and> max_points \<le> mem \<and> 0 \<le> dst"
  show "\<exists>res. cluster_dist mem indices pointfn dst max_points = Some (Inr res)"
    unfolding cluster_dist_def
  proof (rule cluster_total[OF well_behaved_distance])
    fix s' :: Index3D and p
    show "\<exists>found. distance_queryfn mem s' p dst max_points = Inr found"
      using a by (simp add: distance_queryfn_Inr)
  next
    fix s' :: Index3D and found
    assume "s' \<noteq> []" "distance_queryfn mem s' (hd s') dst max_points = Inr found"
    then show "found \<noteq> []"
      using a nearest_progress[of s' max_points dst] by (simp add: distance_queryfn_Inr)
  qed
next
  assume a: "(\<forall>i\<in>set indices. predicate (pointfn i, i) (pointfn i, i)) \<and> max_points' \<le> mem"
  let ?s = "build_index indices pointfn"
  show "\<exists>res. cluster_pred mem indices pointfn predicate max_points' = Some (Inr res)"
    unfolding cluster_pred_def
  proof (rule cluster_total[OF well_behaved_predicate])
    fix s' :: Index3D and p
    show "\<exists>found. predicate_queryfn mem s' p predicate max_points' = Inr found"
      using a by (simp add: predicate_queryfn_Inr)
  next
    fix s' :: Index3D and found
    assume ne: "s' \<noteq> []" and sub: "mset s' \<subseteq># mset ?s"
      and q: "predicate_queryfn mem s' (hd s') predicate max_points' = Inr found"
    have "hd s' \<in> set s'" using ne by simp
    then have "hd s' \<in> set ?s" using set_mset_mono[OF sub] by auto
    then have "predicate (hd s') (hd s')" using a by (auto simp: build_index_eq)
    with ne have "satisfies s' (\<lambda>e. predicate (hd s') e) \<noteq> []" by (rule satisfies_progress)
    with q show "found \<noteq> []" by (simp add: predicate_queryfn_Inr)
  qed
next
  assume a: "indices \<noteq> [] \<and> mem < max_points''"
  then have ne: "build_index indices pointfn \<noteq> []" by (simp add: build_index_eq)
  show "cluster_dist mem indices pointfn dst' max_points'' = Some (Inl BadAlloc)"
    unfolding cluster_dist_def
    by (rule cluster_refused[OF ne]) (use a in \<open>simp add: distance_queryfn_def reserve_def\<close>)
  show "cluster_pred mem indices pointfn predicate' max_points'' = Some (Inl BadAlloc)"
    unfolding cluster_pred_def
    by (rule cluster_refused[OF ne]) (use a in \<open>simp add: predicate_queryfn_def reserve_def\<close>)
qed

theorem cluster_terminates_witness:
  "0 < (2 :: nat) \<and> (2 :: nat) \<le> 2 \<and> (0 :: real) \<le> 6
   \<and> cluster_dist 2 [0, 1, 2] line_pts 6 2 = Some (Inr [[0, 1], [2]])
   \<and> always (line_pts 0, 0) (line_pts 0, 0)
   \<and> always (line_pts 1, 1) (line_pts 1, 1)
   \<and> always (line_pts 2, 2) (line_pts 2, 2)
   \<and> (0 :: nat) \<le> 2
   \<and> cluster_pred 2 [0, 1, 2] line_pts always 0 = Some (Inr [[0, 1, 2]])
   \<and> [0, 1, 2 :: nat] \<noteq> [] \<and> (2 :: nat) < 3
   \<and> cluster_dist 2 [0, 1, 2] line_pts 6 3 = Some (Inl BadAlloc)
   \<and> cluster_pred 2 [0, 1, 2] line_pts always 3 = Some (Inl BadAlloc)"
proof -
  have e1: "cluster_dist 2 [0, 1, 2] line_pts 6 2 = Some (Inr [[0, 1], [2]])"
    by (simp add: cluster_eval line_pts_def)
  have e2: "cluster_pred 2 [0, 1, 2] line_pts always 0 = Some (Inr [[0, 1, 2]])"
    by (simp add: cluster_eval line_pts_def always_def)
  have r: "always (line_pts 0, 0) (line_pts 0, 0)" "always (line_pts 1, 1) (line_pts 1, 1)"
    "always (line_pts 2, 2) (line_pts 2, 2)"
    by (simp_all add: always_def)
  from cluster_terminates[where max_points = 2 and mem = 2 and dst = 6
      and indices = "[0, 1, 2]" and pointfn = line_pts and predicate = always
      and max_points' = 0 and max_points'' = 3 and dst' = 6 and predicate' = always]
  have "cluster_dist 2 [0, 1, 2] line_pts 6 3 = Some (Inl BadAlloc)
      \<and> cluster_pred 2 [0, 1, 2] line_pts always 3 = Some (Inl BadAlloc)"
    by simp
  with e1 e2 r show ?thesis by simp
qed

text \<open>
  C10.  Every cluster that \<^verbatim>\<open>cluster\<close> returns lists its payload indices in ascending
  order, for any query function; for both variants the order is strict when the
  input indices are distinct.  The grouping step keeps the cluster sorted by index.
\<close>

theorem cluster_sorted:
  "(cluster sindex max_points qfn = Some (Inr res0) \<longrightarrow> (\<forall>c\<in>set res0. sorted c))
   \<and> (distinct indices \<and> cluster_dist mem indices pointfn dst max_points = Some (Inr res)
        \<longrightarrow> (\<forall>c\<in>set res. sorted_wrt (<) c))
   \<and> (distinct indices
        \<and> cluster_pred mem indices pointfn predicate max_points = Some (Inr res')
        \<longrightarrow> (\<forall>c\<in>set res'. sorted_wrt (<) c))
   \<and> (group qfn max_points sindex pts cl = Some (Inr cl') \<and> sorted (map snd cl)
        \<longrightarrow> sorted (map snd cl'))"
proof -
  have core: "\<forall>c\<in>set r. sorted c" if "cluster s max_points q = Some (Inr r)" for s q r
    using cluster_result_ok[OF that] by simp
  have strict: "\<forall>c\<in>set r. sorted_wrt (<) c"
    if "distinct indices" "well_behaved q"
      "cluster (build_index indices pointfn) max_points q = Some (Inr r)" for q r
  proof -
    have "mset (concat r) = mset indices"
      using cluster_result_mset[OF that(2) _ that(3)] that(1)
      by (simp add: build_index_keys)
    then have "partition_of indices r" using that(1) by (rule partition_of_mset)
    then have "\<forall>c\<in>set r. distinct c" by (simp add: partition_of_def)
    with core[OF that(3)] show ?thesis by (simp add: strict_sorted_iff)
  qed
  show ?thesis
    using core strict[OF _ well_behaved_distance] strict[OF _ well_behaved_predicate]
    unfolding cluster_dist_def cluster_pred_def
    by (blast intro: group_sorted)
qed

theorem cluster_sorted_witness:
  "distinct [0, 1, 2 :: nat]
   \<and> cluster_dist 3 [0, 1, 2] line_pts 1 3 = Some (Inr [[0, 2], [1]])
   \<and> sorted_wrt (<) [0, 2 :: nat] \<and> sorted_wrt (<) [1 :: nat]"
proof -
  have d: "distinct [0, 1, 2 :: nat]" by simp
  have e1: "cluster_dist 3 [0, 1, 2] line_pts 1 3 = Some (Inr [[0, 2], [1]])"
    by (simp add: cluster_eval line_pts_def)
  from cluster_sorted[where indices = "[0, 1, 2]" and mem = 3 and pointfn = line_pts
      and dst = 1 and max_points = 3 and res = "[[0, 2], [1]]"] d e1
  have "\<forall>c\<in>set [[0, 2], [1 :: nat]]. sorted_wrt (<) c" by blast
  with d e1 show ?thesis by simp
qed

section \<open>Facts about the normals computation\<close>

declare mark.simps [simp del] spec_classify.simps [simp del]

lemma dot_self_nonneg: "0 \<le> dot v v"
  by (cases v) simp

lemma distance_nonneg: "0 \<le> distance a b"
  by (simp add: distance_def Let_def dot_self_nonneg)

lemma dot_vsub_swap: "dot (vsub a b) (vsub a b) = dot (vsub b a) (vsub b a)"
  by (cases a; cases b) (simp add: algebra_simps)

lemma abs_distance: "\<bar>distance a b\<bar> = distance a b"
  using distance_nonneg by simp

lemma dot_self_zero: "dot v v = 0 \<longleftrightarrow> v = (0, 0, 0)"
  by (cases v) (auto simp: add_nonneg_eq_0_iff)

lemma projection_eq:
  "scale (dot (normalized u) d) (normalized u) = scale (dot d u / dot u u) u"
proof (cases "dot u u > 0")
  case True
  obtain a b c where u: "u = (a, b, c)" by (cases u)
  obtain x y z where d: "d = (x, y, z)" by (cases d)
  define s where "s = sqrt (dot u u)"
  have s2: "s * s = dot u u" using True by (simp add: s_def)
  have sp: "s \<noteq> 0" using True by (simp add: s_def)
  have n: "normalized u = (a / s, b / s, c / s)"
    using True by (simp add: normalized_def squaredNorm_def Let_def u s_def)
  have k: "(a / s * x + b / s * y + c / s * z) / s = (x * a + y * b + z * c) / (s * s)"
    using sp by (simp add: field_simps)
  show ?thesis
    unfolding n using k s2 sp
    by (simp add: u d field_simps)
next
  case False
  then have "dot u u = 0" using dot_self_nonneg[of u] by simp
  then have "u = (0, 0, 0)" by (simp add: dot_self_zero)
  then show ?thesis by (cases d) (simp add: normalized_def squaredNorm_def)
qed

lemma line_distance_foot: "line_distance (Through a b) c = perp_distance c a b"
proof -
  let ?u = "vsub b a" and ?d = "vsub c a"
  have "vsub ?d (scale (dot ?d ?u / dot ?u ?u) ?u)
          = vsub c (vadd a (scale (dot ?d ?u / dot ?u ?u) ?u))"
    by (cases a; cases b; cases c) simp
  then show ?thesis
    by (simp add: line_distance_def Through_def perp_distance_def foot_def distance_def
      squaredNorm_def projection_eq Let_def dot_vsub_swap[of c])
qed

lemma norm_sq_sub_scale:
  "dot (vsub d (scale t u)) (vsub d (scale t u)) = dot d d - 2 * t * dot d u + t * t * dot u u"
  by (cases d; cases u) (simp add: algebra_simps)

lemma foot_perpendicular: "dot (vsub c (foot c a b)) (vsub b a) = 0"
proof -
  let ?u = "vsub b a" and ?d = "vsub c a"
  have e: "vsub c (foot c a b) = vsub ?d (scale (dot ?d ?u / dot ?u ?u) ?u)"
    by (cases a; cases b; cases c) (simp add: foot_def Let_def)
  have l: "dot (vsub d (scale t u)) u = dot d u - t * dot u u" for d u t
    by (cases d; cases u) (simp add: algebra_simps)
  show ?thesis
  proof (cases "dot ?u ?u = 0")
    case True
    then have "?u = (0, 0, 0)" by (simp add: dot_self_zero)
    then show ?thesis by (cases "vsub c (foot c a b)") simp
  next
    case False
    then show ?thesis unfolding e l by simp
  qed
qed

lemma perp_distance_minimal:
  "perp_distance c a b \<le> distance c (vadd a (scale t (vsub b a)))"
proof -
  let ?u = "vsub b a" and ?d = "vsub c a"
  let ?k = "dot ?d ?u / dot ?u ?u"
  have e: "vsub c (vadd a (scale s ?u)) = vsub ?d (scale s ?u)" for s
    by (cases a; cases b; cases c) simp
  have "dot ?d ?d - 2 * ?k * dot ?d ?u + ?k * ?k * dot ?u ?u
          \<le> dot ?d ?d - 2 * t * dot ?d ?u + t * t * dot ?u ?u"
  proof (cases "dot ?u ?u = 0")
    case True
    then have "?u = (0, 0, 0)" by (simp add: dot_self_zero)
    then show ?thesis by (cases ?d) simp
  next
    case False
    then have pos: "0 < dot ?u ?u" using dot_self_nonneg[of ?u] by simp
    have "t * t * dot ?u ?u - 2 * t * dot ?d ?u
             - (?k * ?k * dot ?u ?u - 2 * ?k * dot ?d ?u)
          = (t * dot ?u ?u - dot ?d ?u)\<^sup>2 / dot ?u ?u"
      using False by (simp add: field_simps power2_eq_square)
    moreover have "0 \<le> (t * dot ?u ?u - dot ?d ?u)\<^sup>2 / dot ?u ?u"
      using pos by simp
    ultimately show ?thesis by linarith
  qed
  then have "dot (vsub c (foot c a b)) (vsub c (foot c a b))
         \<le> dot (vsub c (vadd a (scale t ?u))) (vsub c (vadd a (scale t ?u)))"
    unfolding foot_def Let_def e norm_sq_sub_scale .
  then show ?thesis
    unfolding perp_distance_def distance_def Let_def
    by (simp add: dot_vsub_swap[of _ c])
qed

lemma abs_line_distance: "\<bar>line_distance l p\<bar> = line_distance l p"
  by (simp add: line_distance_def Let_def squaredNorm_def dot_self_nonneg)

lemma distance_d_exact: "distance_d exact a b = distance a b"
  by (simp add: distance_d_def distance_def exact_def)

lemma point_on_edge_perp: "point_on_edge exact p e1 e2 eps \<longleftrightarrow> perp_distance p e1 e2 < eps"
  using abs_line_distance[of "Through e1 e2" p]
  by (simp add: point_on_edge_def exact_def Let_def line_distance_foot)

lemma near_vertex_exact: "near_vertex exact c v eps \<longleftrightarrow> distance c v < eps"
  using abs_distance[of c v] by (simp add: near_vertex_def exact_def distance_def Let_def)

lemma near_line_exact: "near_line exact c a b eps \<longleftrightarrow> perp_distance c a b < eps"
  using abs_line_distance[of "Through a b" c]
  by (simp add: near_line_def exact_def line_distance_foot)

lemma decode_mark:
  assumes "0 \<le> t0" "0 \<le> t1" "0 \<le> t2"
  shows "decode (mark A c v0 v1 v2 (t0, t1, t2) eps)
           = spec_classify A c v0 v1 v2 (t0, t1, t2) eps"
  using assms
  by (simp add: mark.simps spec_classify.simps near_vertex_def near_line_def distance_d_def
        point_on_edge_def Let_def)

lemma unique_foldl:
  "foldl (\<lambda>kept x. if kept \<noteq> [] \<and> eq (last kept) x then kept else kept @ [x]) (kept @ [x]) ys
     = kept @ unique eq (x # ys)"
proof (induction ys arbitrary: kept x)
  case Nil
  then show ?case by simp
next
  case (Cons y ys)
  show ?case
  proof (cases "eq x y")
    case True
    with Cons[of kept x] show ?thesis by simp
  next
    case False
    with Cons[of "kept @ [x]" y] show ?thesis by simp
  qed
qed

lemma unique_collapse: "unique eq xs = collapse_adjacent eq xs"
proof (cases xs)
  case Nil
  then show ?thesis by (simp add: collapse_adjacent_def)
next
  case (Cons x ys)
  with unique_foldl[of eq "[]" x ys] show ?thesis by (simp add: collapse_adjacent_def)
qed

lemma normal_eq_duplicates: "normal_eq A = duplicates A"
proof (intro ext)
  fix m n :: "'a vec3"
  show "normal_eq A m n = duplicates A m n"
    by (cases m; cases n) (simp add: duplicates_def deq_def)
qed

lemma foldl_vadd:
  "foldl vadd acc ns =
     vadd acc (sum_list (map fst ns), sum_list (map (\<lambda>n. fst (snd n)) ns),
               sum_list (map (\<lambda>n. snd (snd n)) ns))"
proof (induction ns arbitrary: acc)
  case Nil
  then show ?case by (cases acc) simp
next
  case (Cons n ns)
  then show ?case by (cases acc; cases n) (simp add: algebra_simps)
qed

lemma mean_exact: "mean exact ns = coordinate_mean ns"
  by (simp add: mean_def exact_def foldl_vadd coordinate_mean_def)

lemma scan_vertex_filter:
  "scan_vertex False ic fs neigh = Inr (neigh @ filter (\<lambda>f. has_vertex f ic) fs)"
  by (induction fs arbitrary: neigh) simp_all

lemma scan_edge_filter:
  "scan_edge False ia ib fs neigh
     = Inr (neigh @ filter (\<lambda>f. has_vertex f ia \<and> has_vertex f ib) fs)"
  by (induction fs arbitrary: neigh) simp_all

lemma row_Inr: "row m i = Inr x \<Longrightarrow> 0 \<le> i \<and> nat i < length m \<and> x = m ! nat i"
  by (auto simp: row_def split: if_splits)

lemma row_mem: "row m i = Inr x \<Longrightarrow> x \<in> set m"
  by (auto dest: row_Inr)

lemma and_then_Inr: "and_then m f = Inr y \<longleftrightarrow> (\<exists>x. m = Inr x \<and> f x = Inr y)"
  by (cases m) simp_all

lemma has_vertex_corners: "has_vertex f i \<longleftrightarrow> i \<in> set (corners f)"
  by (cases f) auto

lemma tri_normal_Inr:
  assumes "tri_normal A V tri = Inr n"
  shows "n = unit_normal A V tri"
proof -
  obtain t0 t1 t2 where tri: "tri = (t0, t1, t2)" by (cases tri)
  from assms obtain pt1 pt2 pt3 where
    r: "row V t0 = Inr pt1" "row V t1 = Inr pt2" "row V t2 = Inr pt3"
    and n: "n = d_normalized A (d_cross A (d_minus A pt2 pt1) (d_minus A pt3 pt1))"
    unfolding tri tri_normal.simps and_then_Inr Let_def by auto
  from r have "pt1 = V ! nat t0" "pt2 = V ! nat t1" "pt3 = V ! nat t2"
    by (auto dest: row_Inr)
  with n show ?thesis by (simp add: tri)
qed

lemma neigh_norms_Inr: "neigh_norms A V fs = Inr ns \<Longrightarrow> ns = map (unit_normal A V) fs"
proof (induction fs arbitrary: ns)
  case Nil
  then show ?case by simp
next
  case (Cons f fs)
  then show ?case by (auto split: sum.splits dest: tri_normal_Inr)
qed

lemma run_all_Inr:
  "run_all rs = Inr xs \<Longrightarrow> length xs = length rs \<and> (\<forall>i<length rs. rs ! i = Inr (xs ! i))"
proof (induction rs arbitrary: xs)
  case Nil
  then show ?case by simp
next
  case (Cons r rs)
  then show ?case by (auto split: sum.splits simp: nth_Cons split: nat.splits)
qed

lemma normals_row:
  assumes "normals A pfn mesh eps pt_indices thr = Inr rows" "ridx < length rows"
  shows "ridx < length pt_indices \<and> proc A pfn mesh eps pt_indices thr ridx = Inr (rows ! ridx)"
proof (cases "length pt_indices = 0 \<or> length (m_V mesh) = 0 \<or> length (m_F mesh) = 0")
  case True
  with assms(1) have "rows = []" by (simp add: normals_def)
  with assms(2) show ?thesis by simp
next
  case False
  with assms(1) have
    "run_all (map (proc A pfn mesh eps pt_indices thr) [0..<length pt_indices]) = Inr rows"
    by (simp add: normals_def)
  from run_all_Inr[OF this] assms(2) show ?thesis by simp
qed

lemma proc_Inr:
  assumes ret: "proc A pfn mesh eps rng thr ridx = Inr r"
    and sq: "squared_distance A mesh (pfn (rng ! ridx)) = (sqdst, faceid, Some c)"
    and face: "0 \<le> faceid" "m_F mesh ! nat faceid = (t0, t1, t2)"
    and v: "v0 = m_V mesh ! nat t0" "v1 = m_V mesh ! nat t1" "v2 = m_V mesh ! nat t2"
  defines "neigh \<equiv> neigh_of mesh (mark A c v0 v1 v2 (t0, t1, t2) eps)"
  shows "0 \<le> t0 \<and> 0 \<le> t1 \<and> 0 \<le> t2 \<and> (t0, t1, t2) \<in> set (m_F mesh)
       \<and> r = Some (if neigh = [] then d_cross A (d_minus A v1 v0) (d_minus A v2 v0)
                   else mean A (collapse_adjacent (duplicates A)
                          (d_sort A (by_sum A) (map (unit_normal A (m_V mesh)) neigh))))"
proof -
  have nt: "\<not> thr" using ret by (auto simp: proc_def)
  from ret nt sq face(1) have
    "and_then (row (m_F mesh) faceid) (\<lambda>trindex.
     and_then (row (m_V mesh) (fst trindex)) (\<lambda>p1.
     and_then (row (m_V mesh) (fst (snd trindex))) (\<lambda>p2.
     and_then (row (m_V mesh) (snd (snd trindex))) (\<lambda>p3.
       (case mark A c p1 p2 p3 trindex eps of (ia, ib, ic) \<Rightarrow>
         and_then
           (if ic \<ge> 0 then scan_vertex False ic (m_F mesh) []
            else if ia \<ge> 0 \<and> ib \<ge> 0 then scan_edge False ia ib (m_F mesh) []
            else Inr [])
           (\<lambda>neigh.
             if neigh = [] then
               (let U = d_minus A p2 p1; W = d_minus A p3 p1 in Inr (Some (d_cross A U W)))
             else
               and_then (neigh_norms A (m_V mesh) neigh) (\<lambda>neighnorms.
                 let sorted_norms = d_sort A (\<lambda>v1 v2. d_less A (d_sum A v1) (d_sum A v2)) neighnorms;
                     kept = unique (normal_eq A) sorted_norms
                 in Inr (Some (d_div A (foldl (d_plus A) (Zero A) kept)
                                 (d_lit A (real (length kept)))))))))))) = Inr r"
    by (simp add: proc_def Let_def)
  then obtain trindex p1 p2 p3 where
    rf: "row (m_F mesh) faceid = Inr trindex"
    and r1: "row (m_V mesh) (fst trindex) = Inr p1"
    and r2: "row (m_V mesh) (fst (snd trindex)) = Inr p2"
    and r3: "row (m_V mesh) (snd (snd trindex)) = Inr p3"
    and rest: "(case mark A c p1 p2 p3 trindex eps of (ia, ib, ic) \<Rightarrow>
         and_then
           (if ic \<ge> 0 then scan_vertex False ic (m_F mesh) []
            else if ia \<ge> 0 \<and> ib \<ge> 0 then scan_edge False ia ib (m_F mesh) []
            else Inr [])
           (\<lambda>neigh.
             if neigh = [] then
               (let U = d_minus A p2 p1; W = d_minus A p3 p1 in Inr (Some (d_cross A U W)))
             else
               and_then (neigh_norms A (m_V mesh) neigh) (\<lambda>neighnorms.
                 let sorted_norms = d_sort A (\<lambda>v1 v2. d_less A (d_sum A v1) (d_sum A v2)) neighnorms;
                     kept = unique (normal_eq A) sorted_norms
                 in Inr (Some (d_div A (foldl (d_plus A) (Zero A) kept)
                                 (d_lit A (real (length kept)))))))) = Inr r"
    unfolding and_then_Inr by blast
  have tri: "trindex = (t0, t1, t2)" using row_Inr[OF rf] face(2) by simp
  have mem: "(t0, t1, t2) \<in> set (m_F mesh)" using row_mem[OF rf] tri by simp
  have ps: "p1 = v0" "p2 = v1" "p3 = v2" "0 \<le> t0" "0 \<le> t1" "0 \<le> t2"
    using row_Inr[OF r1] row_Inr[OF r2] row_Inr[OF r3] v by (simp_all add: tri)
  obtain ia ib ic where m: "mark A c v0 v1 v2 (t0, t1, t2) eps = (ia, ib, ic)"
    by (cases "mark A c v0 v1 v2 (t0, t1, t2) eps")
  have sc: "(if ic \<ge> 0 then scan_vertex False ic (m_F mesh) []
            else if ia \<ge> 0 \<and> ib \<ge> 0 then scan_edge False ia ib (m_F mesh) []
            else Inr []) = Inr neigh"
    unfolding neigh_def m by (simp add: scan_vertex_filter scan_edge_filter)
  from rest have fin: "(if neigh = [] then
               (let U = d_minus A v1 v0; W = d_minus A v2 v0 in Inr (Some (d_cross A U W)))
             else
               and_then (neigh_norms A (m_V mesh) neigh) (\<lambda>neighnorms.
                 let sorted_norms = d_sort A (\<lambda>v1 v2. d_less A (d_sum A v1) (d_sum A v2)) neighnorms;
                     kept = unique (normal_eq A) sorted_norms
                 in Inr (Some (d_div A (foldl (d_plus A) (Zero A) kept)
                                 (d_lit A (real (length kept))))))) = Inr r"
    unfolding tri ps m prod.case sc and_then.simps .
  have "r = Some (if neigh = [] then d_cross A (d_minus A v1 v0) (d_minus A v2 v0)
                   else mean A (collapse_adjacent (duplicates A)
                          (d_sort A (by_sum A) (map (unit_normal A (m_V mesh)) neigh))))"
  proof (cases "neigh = []")
    case True
    with fin show ?thesis by (simp add: Let_def)
  next
    case False
    with fin obtain ns where ns: "neigh_norms A (m_V mesh) neigh = Inr ns"
      and r: "r = Some (d_div A (foldl (d_plus A) (Zero A)
                                   (unique (normal_eq A) (d_sort A (by_sum A) ns)))
                  (d_lit A (real (length (unique (normal_eq A) (d_sort A (by_sum A) ns))))))"
      by (auto simp: and_then_Inr Let_def by_sum_def[abs_def])
    from neigh_norms_Inr[OF ns] r False show ?thesis
      by (simp add: mean_def Zero_def unique_collapse normal_eq_duplicates)
  qed
  with ps mem show ?thesis by simp
qed

lemma lagrange_identity:
  "squaredNorm (cross u w) = dot u u * dot w w - (dot u w)\<^sup>2"
  by (cases u; cases w) (simp add: squaredNorm_def power2_eq_square algebra_simps)

lemma sqrt_256: "sqrt 256 = 16"
proof -
  have "sqrt 256 = sqrt (16\<^sup>2)" by simp
  then show ?thesis by (simp only: real_sqrt_abs)
qed

lemma exact_sel:
  "d_lit exact = (\<lambda>x. x)" "d_less exact = (<)" "d_abs exact = abs" "d_sqrt exact = sqrt"
  "d_sub exact = (-)" "d_minus exact = vsub" "d_plus exact = vadd" "d_div exact = vdiv"
  "d_dot exact = dot" "d_cross exact = cross" "d_normalized exact = normalized"
  "d_sum exact = vsum" "d_Through exact = Through" "d_distance exact = line_distance"
  "d_sort exact = sort_by"
  by (simp_all add: exact_def)

lemma mset_insert_by: "mset (insert_by lt x xs) = add_mset x (mset xs)"
  by (induction xs) simp_all

lemma mset_sort_by: "mset (sort_by lt xs) = mset xs"
  by (induction xs) (simp_all add: sort_by_def mset_insert_by)

lemma set_insert_by: "set (insert_by lt x xs) = insert x (set xs)"
  by (induction xs) auto

lemma sorted_insert_by:
  fixes f :: "'a \<Rightarrow> 'b :: linorder"
  shows "sorted (map f xs) \<Longrightarrow> sorted (map f (insert_by (\<lambda>a b. f a < f b) x xs))"
  by (induction xs) (auto simp: set_insert_by)

lemma sorted_sort_by:
  fixes f :: "'a \<Rightarrow> 'b :: linorder"
  shows "sorted (map f (sort_by (\<lambda>a b. f a < f b) xs))"
  by (induction xs) (simp_all add: sort_by_def sorted_insert_by)

lemma sort_exact:
  "mset (d_sort exact (by_sum exact) ns) = mset ns
   \<and> sorted (map vsum (d_sort exact (by_sum exact) ns))"
  by (simp add: exact_sel by_sum_def[abs_def] mset_sort_by sorted_sort_by)

lemmas normals_eval =
  normals_def proc_def squared_distance_def on_face_0_def row_def at_point_def
  mark.simps spec_classify.simps distance_d_exact abs_distance point_on_edge_perp
  near_vertex_exact near_line_exact perp_distance_def foot_def distance_def exact_sel
  normalized_def squaredNorm_def deq_def Zero_def sort_by_def Let_def sqrt_256
  aggregated_normal_def mean_def collapse_adjacent_def duplicates_def by_sum_def

section \<open>Claims about normals\<close>

text \<open>
  C6.  In every arithmetic: when \<^verbatim>\<open>normals\<close> returns and the closest surface point of
  a query is classified on-vertex or on-edge, the query's row is the mean (sum
  divided by count, not normalized again) of the surviving unit normals of all faces
  whose vertex triple contains the vertex, or both vertices of the edge.  The
  survivors are what is left after \<^verbatim>\<open>std::sort\<close> by coordinate sum, in whatever order
  it leaves normals of equal sum, and the collapse: from left to right, a normal is
  dropped when each of its coordinates differs by less than 1e-3 in absolute value
  from that of the last survivor.  Only neighbours in the sorted order are
  collapsed: of two equal normals with a different one between them the code keeps
  both.  In exact arithmetic the sort leaves a permutation in ascending order of
  the sums, and the mean is the arithmetic mean of each coordinate.
\<close>

theorem degenerate_normal_is_mean:
  assumes "normals A pfn mesh eps pt_indices thr = Inr rows" and "ridx < length rows"
    and "squared_distance A mesh (pfn (pt_indices ! ridx)) = (sqdst, faceid, Some c)"
    and "0 \<le> faceid" and "m_F mesh ! nat faceid = (t0, t1, t2)"
    and "v0 = m_V mesh ! nat t0" and "v1 = m_V mesh ! nat t1" and "v2 = m_V mesh ! nat t2"
  shows "(spec_classify A c v0 v1 v2 (t0, t1, t2) eps = OnVertex ic
            \<longrightarrow> rows ! ridx = Some (aggregated_normal A mesh (\<lambda>f. ic \<in> set (corners f))))
       \<and> (spec_classify A c v0 v1 v2 (t0, t1, t2) eps = OnEdge ia ib
            \<longrightarrow> rows ! ridx
                  = Some (aggregated_normal A mesh
                            (\<lambda>f. ia \<in> set (corners f) \<and> ib \<in> set (corners f))))
       \<and> unique (normal_eq exact) [(1, 0, 0), (0, 1, 0), (1, 0, 0)]
           = [(1, 0, 0), (0, 1, 0), (1, 0, 0)]
       \<and> mset (d_sort exact (by_sum exact) ns) = mset ns
       \<and> sorted (map vsum (d_sort exact (by_sum exact) ns))
       \<and> mean exact ns = coordinate_mean ns"
proof -
  from normals_row[OF assms(1,2)]
  have p: "proc A pfn mesh eps pt_indices thr ridx = Inr (rows ! ridx)" by simp
  note shape = proc_Inr[OF p assms(3-8)]
  from shape have nn: "0 \<le> t0" "0 \<le> t1" "0 \<le> t2" and mem: "(t0, t1, t2) \<in> set (m_F mesh)"
    by simp_all
  obtain ja jb jc where m: "mark A c v0 v1 v2 (t0, t1, t2) eps = (ja, jb, jc)"
    by (cases "mark A c v0 v1 v2 (t0, t1, t2) eps")
  have dec: "decode (ja, jb, jc) = spec_classify A c v0 v1 v2 (t0, t1, t2) eps"
    using decode_mark[OF nn, of A c v0 v1 v2 eps] by (simp only: m)
  have "rows ! ridx = Some (aggregated_normal A mesh (\<lambda>f. ic \<in> set (corners f)))"
    if cl: "spec_classify A c v0 v1 v2 (t0, t1, t2) eps = OnVertex ic"
  proof -
    from cl have "ic = t0 \<or> ic = t1 \<or> ic = t2"
      by (auto simp: spec_classify.simps split: if_splits)
    then have "has_vertex (t0, t1, t2) ic" by auto
    with mem have ne: "filter (\<lambda>f. has_vertex f ic) (m_F mesh) \<noteq> []"
      unfolding filter_empty_conv by blast
    from dec cl have "0 \<le> jc" "jc = ic" by (auto split: if_splits)
    then have "neigh_of mesh (ja, jb, jc) = filter (\<lambda>f. has_vertex f ic) (m_F mesh)" by simp
    with shape ne show ?thesis
      by (simp add: m aggregated_normal_def has_vertex_corners)
  qed
  moreover have "rows ! ridx
        = Some (aggregated_normal A mesh (\<lambda>f. ia \<in> set (corners f) \<and> ib \<in> set (corners f)))"
    if cl: "spec_classify A c v0 v1 v2 (t0, t1, t2) eps = OnEdge ia ib"
  proof -
    from cl have "(ia = t0 \<and> ib = t1) \<or> (ia = t1 \<and> ib = t2) \<or> (ia = t0 \<and> ib = t2)"
      by (auto simp: spec_classify.simps split: if_splits)
    then have "has_vertex (t0, t1, t2) ia \<and> has_vertex (t0, t1, t2) ib" by auto
    with mem have ne: "filter (\<lambda>f. has_vertex f ia \<and> has_vertex f ib) (m_F mesh) \<noteq> []"
      unfolding filter_empty_conv by blast
    from dec cl have "\<not> 0 \<le> jc" "0 \<le> ja" "0 \<le> jb" "ja = ia" "jb = ib"
      by (auto split: if_splits)
    then have "neigh_of mesh (ja, jb, jc)
                 = filter (\<lambda>f. has_vertex f ia \<and> has_vertex f ib) (m_F mesh)" by simp
    with shape ne show ?thesis
      by (simp add: m aggregated_normal_def has_vertex_corners)
  qed
  moreover have
    "unique (normal_eq exact) [(1, 0, 0), (0, 1, 0), (1, 0, 0)]
       = [(1, 0, 0), (0, 1, 0), (1, 0, 0)]"
    by (simp add: deq_def exact_sel)
  moreover have "mean exact ns = coordinate_mean ns" by (rule mean_exact)
  moreover note sort_exact[of ns]
  ultimately show ?thesis by blast
qed

theorem degenerate_normal_is_mean_witness:
  "normals exact (at_point (0, 0, 0)) fan_mesh 1 [7] False = Inr [Some (0, - 1 / 2, 1 / 2)]
   \<and> squared_distance exact fan_mesh (0, 0, 0) = (0, 0, Some (0, 0, 0))
   \<and> spec_classify exact (0, 0, 0) (0, 0, 0) (4, 0, 0) (0, 4, 0) (0, 1, 2) 1 = OnVertex 0
   \<and> aggregated_normal exact fan_mesh (\<lambda>f. 0 \<in> set (corners f)) = (0, - 1 / 2, 1 / 2)
   \<and> normals exact (at_point (2, 0, 0)) corner_mesh 1 [7] False
        = Inr [Some (0, 1 / 2, 1 / 2)]
   \<and> squared_distance exact corner_mesh (2, 0, 0) = (0, 0, Some (2, 0, 0))
   \<and> spec_classify exact (2, 0, 0) (0, 0, 0) (4, 0, 0) (0, 4, 0) (0, 1, 2) 1 = OnEdge 0 1
   \<and> aggregated_normal exact corner_mesh (\<lambda>f. 0 \<in> set (corners f) \<and> 1 \<in> set (corners f))
        = (0, 1 / 2, 1 / 2)"
proof -
  have n1: "normals exact (at_point (0, 0, 0)) fan_mesh 1 [7] False
              = Inr [Some (0, - 1 / 2, 1 / 2)]"
    by (simp add: normals_eval fan_mesh_def)
  have s1: "squared_distance exact fan_mesh (at_point (0, 0, 0) ([7] ! 0))
              = (0, 0, Some (0, 0, 0))"
    by (simp add: normals_eval fan_mesh_def)
  have c1: "spec_classify exact (0, 0, 0) (0, 0, 0) (4, 0, 0) (0, 4, 0) (0, 1, 2) 1 = OnVertex 0"
    by (simp add: normals_eval)
  have l1: "0 < length [Some (0, - 1 / 2, 1 / 2 :: real)]" and z: "(0 :: int) \<le> 0"
    by simp_all
  have f1: "m_F fan_mesh ! nat 0 = (0, 1, 2)"
    and a1: "(0, 0, 0) = m_V fan_mesh ! nat 0" "(4, 0, 0) = m_V fan_mesh ! nat 1"
      "(0, 4, 0) = m_V fan_mesh ! nat 2"
    by (simp_all add: fan_mesh_def)
  from degenerate_normal_is_mean[OF n1 l1 s1 z f1 a1, where ic = 0] c1
  have r1: "[Some (0, - 1 / 2, 1 / 2 :: real)] ! 0
              = Some (aggregated_normal exact fan_mesh (\<lambda>f. 0 \<in> set (corners f)))"
    by blast
  have n2: "normals exact (at_point (2, 0, 0)) corner_mesh 1 [7] False
              = Inr [Some (0, 1 / 2, 1 / 2)]"
    by (simp add: normals_eval corner_mesh_def)
  have s2: "squared_distance exact corner_mesh (at_point (2, 0, 0) ([7] ! 0))
              = (0, 0, Some (2, 0, 0))"
    by (simp add: normals_eval corner_mesh_def)
  have c2: "spec_classify exact (2, 0, 0) (0, 0, 0) (4, 0, 0) (0, 4, 0) (0, 1, 2) 1
              = OnEdge 0 1"
    by (simp add: normals_eval)
  have l2: "0 < length [Some (0, 1 / 2, 1 / 2 :: real)]" by simp
  have f2: "m_F corner_mesh ! nat 0 = (0, 1, 2)"
    and a2: "(0, 0, 0) = m_V corner_mesh ! nat 0" "(4, 0, 0) = m_V corner_mesh ! nat 1"
      "(0, 4, 0) = m_V corner_mesh ! nat 2"
    by (simp_all add: corner_mesh_def)
  from degenerate_normal_is_mean[OF n2 l2 s2 z f2 a2, where ia = 0 and ib = 1] c2
  have r2: "[Some (0, 1 / 2, 1 / 2 :: real)] ! 0
      = Some (aggregated_normal exact corner_mesh
                (\<lambda>f. 0 \<in> set (corners f) \<and> 1 \<in> set (corners f)))"
    by blast
  have g1: "aggregated_normal exact fan_mesh (\<lambda>f. 0 \<in> set (corners f)) = (0, - 1 / 2, 1 / 2)"
    using r1 by simp
  have g2: "aggregated_normal exact corner_mesh
              (\<lambda>f. 0 \<in> set (corners f) \<and> 1 \<in> set (corners f)) = (0, 1 / 2, 1 / 2)"
    using r2 by simp
  have s1': "squared_distance exact fan_mesh (0, 0, 0) = (0, 0, Some (0, 0, 0))"
    and s2': "squared_distance exact corner_mesh (2, 0, 0) = (0, 0, Some (2, 0, 0))"
    using s1 s2 by (simp_all add: at_point_def)
  show ?thesis
    using n1 s1' c1 g1 n2 s2' c2 g2 by blast
qed

text \<open>
  C7.  In every arithmetic, for a face with valid vertex indices, the marks that
  \<^verbatim>\<open>normals\<close> sets are the classification of the specification: the three vertices in
  order, each by its computed Euclidean distance below the tolerance, and only then
  the edges (v0,v1), (v1,v2), (v0,v2), each by the computed distance to the line
  through its endpoints.  In exact arithmetic the first test is on the Euclidean
  distance, and the second, which is that of \<^verbatim>\<open>point_on_edge\<close>, is on the
  perpendicular distance to the infinite line: the distance to the foot of the
  perpendicular, which is at most the distance to any point of the line, at whatever
  parameter.
\<close>

theorem degeneracy_priority:
  assumes "0 \<le> t0" and "0 \<le> t1" and "0 \<le> t2"
  shows "decode (mark A c v0 v1 v2 (t0, t1, t2) eps)
           = spec_classify A c v0 v1 v2 (t0, t1, t2) eps
       \<and> (near_vertex exact p a e \<longleftrightarrow> distance p a < e)
       \<and> (near_line exact p a b e \<longleftrightarrow> perp_distance p a b < e)
       \<and> (point_on_edge exact p a b e \<longleftrightarrow> perp_distance p a b < e)
       \<and> dot (vsub p (foot p a b)) (vsub b a) = 0
       \<and> perp_distance p a b \<le> distance p (vadd a (scale t (vsub b a)))"
  using decode_mark[OF assms, of A c v0 v1 v2 eps]
  by (simp add: near_vertex_exact near_line_exact point_on_edge_perp foot_perpendicular
        perp_distance_minimal)

theorem degeneracy_priority_witness:
  "(0 :: int) \<le> 0 \<and> (0 :: int) \<le> 1 \<and> (0 :: int) \<le> 2
   \<and> decode (mark exact (16, 0, 0) (0, 0, 0) (4, 0, 0) (0, 4, 0) (0, 1, 2) 1) = OnEdge 0 1
   \<and> spec_classify exact (16, 0, 0) (0, 0, 0) (4, 0, 0) (0, 4, 0) (0, 1, 2) 1 = OnEdge 0 1
   \<and> foot (16, 0, 0) (0, 0, 0) (4, 0, 0) = vadd (0, 0, 0) (scale 4 (vsub (4, 0, 0) (0, 0, 0)))
   \<and> perp_distance (16, 0, 0) (0, 0, 0) (4, 0, 0) = 0
   \<and> distance (16, 0, 0) (4, 0, 0) = 12"
proof -
  have h: "(0 :: int) \<le> 0" "(0 :: int) \<le> 1" "(0 :: int) \<le> 2" by simp_all
  have c: "spec_classify exact (16, 0, 0) (0, 0, 0) (4, 0, 0) (0, 4, 0) (0, 1, 2) 1
             = OnEdge 0 1"
    by (simp add: normals_eval)
  from degeneracy_priority[OF h, of exact "(16, 0, 0)" "(0, 0, 0)" "(4, 0, 0)" "(0, 4, 0)" 1] c
  have d: "decode (mark exact (16, 0, 0) (0, 0, 0) (4, 0, 0) (0, 4, 0) (0, 1, 2) 1)
             = OnEdge 0 1"
    by simp
  have f: "foot (16, 0, 0) (0, 0, 0) (4, 0, 0)
             = vadd (0, 0, 0) (scale 4 (vsub (4, 0, 0) (0, 0, 0)))"
    by (simp add: foot_def)
  have p: "perp_distance (16, 0, 0) (0, 0, 0) (4, 0, 0) = 0"
    by (simp add: perp_distance_def foot_def distance_def)
  have "sqrt 144 = sqrt (12\<^sup>2)" by simp
  then have "sqrt 144 = 12" by (simp only: real_sqrt_abs)
  then have g: "distance (16, 0, 0) (4, 0, 0) = 12" by (simp add: distance_def)
  show ?thesis using h c d f p g by blast
qed

text \<open>
  C8.  In every arithmetic: when \<^verbatim>\<open>normals\<close> returns and the closest surface point of
  a query is face-interior, that is, its computed distance to none of the three
  vertices of its face and to none of the three edge lines is below the tolerance,
  the query's row is the cross product of (v1 - v0) and (v2 - v0), not normalized.
  In exact arithmetic the two distances are the Euclidean distance to the vertex
  and the perpendicular distance to the edge line, and the squared length of the
  product is the squared area of the parallelogram spanned by the two edges.
\<close>

theorem face_interior_normal:
  assumes "normals A pfn mesh eps pt_indices thr = Inr rows" and "ridx < length rows"
    and "squared_distance A mesh (pfn (pt_indices ! ridx)) = (sqdst, faceid, Some c)"
    and "0 \<le> faceid" and "m_F mesh ! nat faceid = (t0, t1, t2)"
    and "v0 = m_V mesh ! nat t0" and "v1 = m_V mesh ! nat t1" and "v2 = m_V mesh ! nat t2"
    and "\<not> near_vertex A c v0 eps" and "\<not> near_vertex A c v1 eps"
    and "\<not> near_vertex A c v2 eps"
    and "\<not> near_line A c v0 v1 eps" and "\<not> near_line A c v1 v2 eps"
    and "\<not> near_line A c v0 v2 eps"
  shows "rows ! ridx = Some (d_cross A (d_minus A v1 v0) (d_minus A v2 v0))
       \<and> spec_classify A c v0 v1 v2 (t0, t1, t2) eps = FaceInterior
       \<and> (near_vertex exact p a e \<longleftrightarrow> distance p a < e)
       \<and> (near_line exact p a b e \<longleftrightarrow> perp_distance p a b < e)
       \<and> squaredNorm (d_cross exact u w) = dot u u * dot w w - (dot u w)\<^sup>2"
proof -
  from normals_row[OF assms(1,2)]
  have p: "proc A pfn mesh eps pt_indices thr ridx = Inr (rows ! ridx)" by simp
  note shape = proc_Inr[OF p assms(3-8)]
  have cl: "spec_classify A c v0 v1 v2 (t0, t1, t2) eps = FaceInterior"
    using assms(9-14) by (simp add: spec_classify.simps)
  have "mark A c v0 v1 v2 (t0, t1, t2) eps = (- 1, - 1, - 1)"
    using assms(9-14)
    by (simp add: mark.simps near_vertex_def near_line_def distance_d_def point_on_edge_def
          Let_def)
  then have "neigh_of mesh (mark A c v0 v1 v2 (t0, t1, t2) eps) = []" by simp
  with shape cl show ?thesis
    by (simp add: lagrange_identity exact_sel near_vertex_exact near_line_exact)
qed

theorem face_interior_normal_witness:
  "normals exact (at_point (2, 2, 0)) triangle_mesh 1 [7] False = Inr [Some (0, 0, 64)]
   \<and> squared_distance exact triangle_mesh (2, 2, 0) = (0, 0, Some (2, 2, 0))
   \<and> \<not> near_vertex exact (2, 2, 0) (0, 0, 0) 1
   \<and> \<not> near_vertex exact (2, 2, 0) (8, 0, 0) 1
   \<and> \<not> near_vertex exact (2, 2, 0) (0, 8, 0) 1
   \<and> \<not> near_line exact (2, 2, 0) (0, 0, 0) (8, 0, 0) 1
   \<and> \<not> near_line exact (2, 2, 0) (8, 0, 0) (0, 8, 0) 1
   \<and> \<not> near_line exact (2, 2, 0) (0, 0, 0) (0, 8, 0) 1
   \<and> d_cross exact (d_minus exact (8, 0, 0) (0, 0, 0)) (d_minus exact (0, 8, 0) (0, 0, 0))
       = (0, 0, 64)"
proof -
  have n: "normals exact (at_point (2, 2, 0)) triangle_mesh 1 [7] False
             = Inr [Some (0, 0, 64)]"
    by (simp add: normals_eval triangle_mesh_def)
  have s: "squared_distance exact triangle_mesh (at_point (2, 2, 0) ([7] ! 0))
             = (0, 0, Some (2, 2, 0))"
    by (simp add: normals_eval triangle_mesh_def)
  have d: "\<not> near_vertex exact (2, 2, 0) (0, 0, 0) 1"
    "\<not> near_vertex exact (2, 2, 0) (8, 0, 0) 1"
    "\<not> near_vertex exact (2, 2, 0) (0, 8, 0) 1"
    "\<not> near_line exact (2, 2, 0) (0, 0, 0) (8, 0, 0) 1"
    "\<not> near_line exact (2, 2, 0) (8, 0, 0) (0, 8, 0) 1"
    "\<not> near_line exact (2, 2, 0) (0, 0, 0) (0, 8, 0) 1"
    by (simp_all add: near_vertex_exact near_line_exact perp_distance_def foot_def
          distance_def Let_def)
  have l: "0 < length [Some (0, 0, 64 :: real)]" and z: "(0 :: int) \<le> 0" by simp_all
  have f: "m_F triangle_mesh ! nat 0 = (0, 1, 2)"
    and a: "(0, 0, 0) = m_V triangle_mesh ! nat 0" "(8, 0, 0) = m_V triangle_mesh ! nat 1"
      "(0, 8, 0) = m_V triangle_mesh ! nat 2"
    by (simp_all add: triangle_mesh_def)
  from face_interior_normal[OF n l s z f a d]
  have "[Some (0, 0, 64 :: real)] ! 0
          = Some (d_cross exact (d_minus exact (8, 0, 0) (0, 0, 0))
                    (d_minus exact (0, 8, 0) (0, 0, 0)))"
    by blast
  then have g: "d_cross exact (d_minus exact (8, 0, 0) (0, 0, 0))
                  (d_minus exact (0, 8, 0) (0, 0, 0)) = (0, 0, 64 :: real)"
    by simp
  have s': "squared_distance exact triangle_mesh (2, 2, 0) = (0, 0, Some (2, 2, 0))"
    using s by (simp add: at_point_def)
  show ?thesis using n s' d g by blast
qed

text \<open>
  C9.  Empty inputs give empty results and no error: in every arithmetic \<^verbatim>\<open>normals\<close>
  returns no rows when there is no query index, no vertex or no face, whether or
  not the cancellation callback would throw; and each \<^verbatim>\<open>cluster\<close> overload returns no
  cluster on an empty input, whatever the allocator grants.
\<close>

theorem empty_inputs_give_empty_results:
  "(pt_indices = [] \<or> m_V mesh = [] \<or> m_F mesh = []
      \<longrightarrow> normals A pfn mesh eps pt_indices thr = Inr [])
   \<and> cluster_dist mem [] pointfn dst max_points = Some (Inr [])
   \<and> cluster_pred mem [] pointfn predicate max_points = Some (Inr [])
   \<and> cluster_pts mem [] dst max_points = Some (Inr [])
   \<and> cluster [] max_points qfn = Some (Inr [])"
  by (auto simp: normals_def cluster_dist_def cluster_pred_def cluster_pts_def build_index_eq
        cluster_Nil)

theorem empty_inputs_give_empty_results_witness:
  "normals exact (at_point (1, 1, 0)) triangle_mesh 1 [] True = Inr []
   \<and> normals exact (at_point (1, 1, 0)) empty_mesh 1 [0, 1] False = Inr []
   \<and> normals exact (at_point (1, 1, 0)) (triangle_mesh\<lparr>m_F := []\<rparr>) 1 [0, 1] False = Inr []
   \<and> normals exact (at_point (1, 1, 0)) (triangle_mesh\<lparr>m_V := []\<rparr>) 1 [0, 1] False = Inr []"
  using empty_inputs_give_empty_results[where pt_indices = "[]" and mesh = triangle_mesh
      and A = exact and pfn = "at_point (1, 1, 0)" and eps = 1 and thr = True]
    empty_inputs_give_empty_results[where pt_indices = "[0, 1]" and mesh = empty_mesh
      and A = exact and pfn = "at_point (1, 1, 0)" and eps = 1 and thr = False]
    empty_inputs_give_empty_results[where pt_indices = "[0, 1]"
      and mesh = "triangle_mesh\<lparr>m_F := []\<rparr>"
      and A = exact and pfn = "at_point (1, 1, 0)" and eps = 1 and thr = False]
    empty_inputs_give_empty_results[where pt_indices = "[0, 1]"
      and mesh = "triangle_mesh\<lparr>m_V := []\<rparr>"
      and A = exact and pfn = "at_point (1, 1, 0)" and eps = 1 and thr = False]
  by (simp add: empty_mesh_def)

end
